theory Spec2Isabelle
  imports Main "HOL-Library.Word" "HOL-Library.AList"
begin

section \<open>Python values, errors and the external libraries\<close>

text \<open>
  The values that reach the fields are the JSON-like Python values: \<open>None\<close>, booleans,
  integers, floats, strings, lists and dictionaries with string keys. A Python \<open>float\<close> is
  kept as its 64-bit pattern; the fields never compute with it. A \<open>dict\<close> keeps insertion
  order, so it is an association list; a Python dictionary has every key once.
\<close>

datatype pyvalue =
    PNone
  | PBool bool
  | PInt int
  | PFloat "64 word"
  | PStr string
  | PList "pyvalue list"
  | PDict "(string \<times> pyvalue) list"

text \<open>
  The exceptions the code can raise. \<open>ValueError\<close> carries its message: the source raises
  it with three different messages. \<open>TypeError\<close> is what \<open>bytes(value, "utf-8")\<close> raises on
  a value that is not a \<open>str\<close>, \<open>IndexError\<close> what \<open>self.fernet_keys[0]\<close> raises on an
  empty list, \<open>JSONDecodeError\<close> what \<open>json.loads\<close> raises on malformed text,
  \<open>RecursionError\<close> what the interpreter raises when calls nest beyond its limit.
  \<open>UnicodeEncodeError\<close> is what \<open>bytes(value, "utf-8")\<close> raises on a \<open>str\<close> that holds a
  lone surrogate, \<open>UnicodeDecodeError\<close> what \<open>.decode("utf-8")\<close> raises on bytes that are
  not UTF-8.
\<close>

datatype py_error =
    ValueError string
  | TypeError
  | IndexError
  | JSONDecodeError
  | RecursionError
  | UnicodeEncodeError
  | UnicodeDecodeError

text \<open>The three error kinds of the specification, as the source raises them.\<close>

definition InvalidPolicy_both :: py_error where
  "InvalidPolicy_both = ValueError ''Cannot specify both `target_fields` and `encrypt_all`.''"

definition InvalidPolicy_neither :: py_error where
  "InvalidPolicy_neither = ValueError ''Must specify either `target_fields` or `encrypt_all`.''"

definition DecryptionFailed :: py_error where
  "DecryptionFailed = ValueError ''Decryption failed for all provided keys.''"

definition DeserializationError :: py_error where
  "DeserializationError = JSONDecodeError"


text \<open>
  What the code takes from outside the repository. \<open>fernet_keys\<close> is \<open>self.fernet_keys\<close>, the
  list of \<open>Fernet\<close> objects built from \<open>settings.MODEL_ENCRYPTION_KEYS\<close>, in that order.
  \<open>fernet_encrypt k n s\<close> is \<open>Fernet(k).encrypt(bytes(s, "utf-8")).decode("utf-8")\<close>; its
  second argument stands for the initialisation vector and the time stamp that the library
  draws on each call. \<open>fernet_decrypt k t\<close> is what the body of the \<open>try\<close> statement of
  \<open>_decrypt\<close>, \<open>Fernet(k).decrypt(bytes(t, "utf-8")).decode("utf-8")\<close>, comes to on the
  \<open>str\<close> \<open>t\<close>: the plaintext it returns, or the exception it raises, which is the
  \<open>InvalidToken\<close> of the library (the key rejects the token), the \<open>UnicodeEncodeError\<close> of
  \<open>bytes\<close>, or the \<open>UnicodeDecodeError\<close> of \<open>decode\<close> when the key accepts a token whose
  plaintext is not UTF-8.
  \<open>json_dumps\<close> and \<open>json_loads\<close> are the functions of the \<open>json\<close> module, with \<open>None\<close> for
  \<open>JSONDecodeError\<close>.
\<close>

datatype decrypt_outcome =
    Decrypted string
  | InvalidToken
  | RaisesUnicodeEncodeError
  | RaisesUnicodeDecodeError

record 'k env =
  fernet_keys :: "'k list"
  fernet_encrypt :: "'k \<Rightarrow> nat \<Rightarrow> string \<Rightarrow> string"
  fernet_decrypt :: "'k \<Rightarrow> string \<Rightarrow> decrypt_outcome"
  json_dumps :: "pyvalue \<Rightarrow> string"
  json_loads :: "string \<Rightarrow> pyvalue option"

text \<open>
  The contracts of the two libraries, used as hypotheses where a property rests on them:
  a key opens the tokens it made, another key rejects them, and parsing the serialisation
  of a value gives the value back.
\<close>

definition fernet_correct :: "'k env \<Rightarrow> bool" where
  "fernet_correct E \<longleftrightarrow> (\<forall>k n s. fernet_decrypt E k (fernet_encrypt E k n s) = Decrypted s)"

definition fernet_authentic :: "'k env \<Rightarrow> bool" where
  "fernet_authentic E \<longleftrightarrow>
     (\<forall>k k' n s. k' \<noteq> k \<longrightarrow> fernet_decrypt E k' (fernet_encrypt E k n s) = InvalidToken)"

definition json_roundtrips :: "'k env \<Rightarrow> pyvalue \<Rightarrow> bool" where
  "json_roundtrips E v \<longleftrightarrow> json_loads E (json_dumps E v) = Some v"

fun isinstance_str :: "pyvalue \<Rightarrow> bool" where
  "isinstance_str (PStr s) = True"
| "isinstance_str v = False"

fun isinstance_dict_list :: "pyvalue \<Rightarrow> bool" where
  "isinstance_dict_list (PDict kvs) = True"
| "isinstance_dict_list (PList xs) = True"
| "isinstance_dict_list v = False"

section \<open>BaseEncryptedField\<close>

text \<open>
  Every method takes the counter of encryption calls made so far and returns it with its
  result, so that each call of the library draws a value of its own.
  \<open>encrypt\<close> is \<open>_encrypt\<close>: the subscript \<open>[0]\<close> is evaluated before \<open>bytes(value, "utf-8")\<close>.
\<close>

definition encrypt :: "'k env \<Rightarrow> pyvalue \<Rightarrow> nat \<Rightarrow> py_error + (string \<times> nat)" where
  "encrypt E v n =
     (case fernet_keys E of
        [] \<Rightarrow> Inl IndexError
      | k # ks \<Rightarrow>
          (case v of
             PStr s \<Rightarrow> Inr (fernet_encrypt E k n s, Suc n)
           | _ \<Rightarrow> Inl TypeError))"

text \<open>
  The loop of \<open>_decrypt\<close> over the keys that are left: only \<open>InvalidToken\<close> is caught.
  The \<open>TypeError\<close> and the \<open>UnicodeEncodeError\<close> of \<open>bytes\<close> and the \<open>UnicodeDecodeError\<close>
  of \<open>decode\<close> are not: they end the loop and reach the caller.
\<close>

fun decrypt_loop :: "'k env \<Rightarrow> 'k list \<Rightarrow> pyvalue \<Rightarrow> py_error + string" where
  "decrypt_loop E [] v = Inl (ValueError ''Decryption failed for all provided keys.'')"
| "decrypt_loop E (k # ks) v =
     (case v of
        PStr s \<Rightarrow>
          (case fernet_decrypt E k s of
             Decrypted p \<Rightarrow> Inr p
           | InvalidToken \<Rightarrow> decrypt_loop E ks v
           | RaisesUnicodeEncodeError \<Rightarrow> Inl UnicodeEncodeError
           | RaisesUnicodeDecodeError \<Rightarrow> Inl UnicodeDecodeError)
      | _ \<Rightarrow> Inl TypeError)"

definition decrypt :: "'k env \<Rightarrow> pyvalue \<Rightarrow> py_error + string" where
  "decrypt E v = decrypt_loop E (fernet_keys E) v"

text \<open>
  What \<open>_decrypt\<close> gives when the key whose outcome is \<open>r\<close> is the one that ends the loop;
  a key that rejects the token ends it only as the last key, with the \<open>ValueError\<close> after
  the loop.
\<close>

fun raised :: "decrypt_outcome \<Rightarrow> py_error + string" where
  "raised (Decrypted p) = Inr p"
| "raised InvalidToken = Inl DecryptionFailed"
| "raised RaisesUnicodeEncodeError = Inl UnicodeEncodeError"
| "raised RaisesUnicodeDecodeError = Inl UnicodeDecodeError"

section \<open>EncryptedTextField\<close>

text \<open>
  The attribute \<open>_already_decrypted\<close> exists only while \<open>clean\<close> runs; \<open>hasattr\<close> is the
  boolean \<open>already_decrypted\<close>.
\<close>

record field =
  already_decrypted :: bool


definition EncryptedTextField_to_python ::
  "'k env \<Rightarrow> 'a field_scheme \<Rightarrow> pyvalue \<Rightarrow> nat \<Rightarrow> py_error + (pyvalue \<times> nat)" where
  "EncryptedTextField_to_python E self v n =
     (if v = PNone \<or> \<not> isinstance_str v \<or> already_decrypted self then Inr (v, n)
      else (case decrypt E v of Inl e \<Rightarrow> Inl e | Inr p \<Rightarrow> Inr (PStr p, n)))"

section \<open>EncryptedJSONField\<close>

record json_field = field +
  encrypt_all :: bool
  target_fields :: "string list option"

text \<open>Python's truth value of \<open>target_fields\<close>: \<open>None\<close> and the empty collection are false.\<close>

fun truthy :: "string list option \<Rightarrow> bool" where
  "truthy None = False"
| "truthy (Some tf) = (tf \<noteq> [])"

text \<open>\<open>__init__\<close>; the constructor of the ORM's own field class is not modelled.\<close>

definition init :: "bool \<Rightarrow> string list option \<Rightarrow> py_error + json_field" where
  "init ea tf =
     (if truthy tf \<and> ea then
        Inl (ValueError ''Cannot specify both `target_fields` and `encrypt_all`.'')
      else if \<not> truthy tf \<and> \<not> ea then
        Inl (ValueError ''Must specify either `target_fields` or `encrypt_all`.'')
      else Inr \<lparr>already_decrypted = False, encrypt_all = ea, target_fields = tf\<rparr>)"

definition encrypt_or_decrypt_all ::
  "'k env \<Rightarrow> pyvalue \<Rightarrow> bool \<Rightarrow> nat \<Rightarrow> py_error + (pyvalue \<times> nat)" where
  "encrypt_or_decrypt_all E v enc n =
     (if enc then
        (case encrypt E (PStr (json_dumps E v)) n of
           Inl e \<Rightarrow> Inl e
         | Inr (t, n') \<Rightarrow> Inr (PStr t, n'))
      else
        (case decrypt E v of
           Inl e \<Rightarrow> Inl e
         | Inr p \<Rightarrow>
             (case json_loads E p of
                None \<Rightarrow> Inl JSONDecodeError
              | Some w \<Rightarrow> Inr (w, n))))"

definition encrypt_or_decrypt_target_field ::
  "'k env \<Rightarrow> pyvalue \<Rightarrow> bool \<Rightarrow> nat \<Rightarrow> py_error + (pyvalue \<times> nat)" where
  "encrypt_or_decrypt_target_field E v enc n =
     (if isinstance_dict_list v then encrypt_or_decrypt_all E v enc n
      else if enc then
        (case encrypt E v n of Inl e \<Rightarrow> Inl e | Inr (t, n') \<Rightarrow> Inr (PStr t, n'))
      else
        (case decrypt E v of Inl e \<Rightarrow> Inl e | Inr p \<Rightarrow> Inr (PStr p, n)))"

text \<open>
  \<open>_encrypt_or_decrypt_value\<close> with the loops of \<open>_encrypt_or_decrypt_dict\<close> (over the items
  of the copy, each key assigned once) and of \<open>_encrypt_or_decrypt_list\<close> (the
  comprehension). The items of a dictionary are replaced one by one, in order: that this
  is what the assignments to the copy come to is shown in the last section, on a model
  with the objects in a store. An exception in an item ends the walk.
  \<open>target_key in self.target_fields\<close>
  raises \<open>TypeError\<close> when \<open>target_fields\<close> is \<open>None\<close>.
\<close>

fun encrypt_or_decrypt_value ::
    "'k env \<Rightarrow> 'a json_field_scheme \<Rightarrow> pyvalue \<Rightarrow> bool \<Rightarrow> nat \<Rightarrow> py_error + (pyvalue \<times> nat)"
  and encrypt_or_decrypt_dict ::
    "'k env \<Rightarrow> 'a json_field_scheme \<Rightarrow> (string \<times> pyvalue) list \<Rightarrow> bool \<Rightarrow> nat
       \<Rightarrow> py_error + ((string \<times> pyvalue) list \<times> nat)"
  and encrypt_or_decrypt_list ::
    "'k env \<Rightarrow> 'a json_field_scheme \<Rightarrow> pyvalue list \<Rightarrow> bool \<Rightarrow> nat
       \<Rightarrow> py_error + (pyvalue list \<times> nat)"
where
  "encrypt_or_decrypt_value E self (PDict kvs) enc n =
     (case encrypt_or_decrypt_dict E self kvs enc n of
        Inl e \<Rightarrow> Inl e
      | Inr (kvs', n') \<Rightarrow> Inr (PDict kvs', n'))"
| "encrypt_or_decrypt_value E self (PList xs) enc n =
     (case encrypt_or_decrypt_list E self xs enc n of
        Inl e \<Rightarrow> Inl e
      | Inr (xs', n') \<Rightarrow> Inr (PList xs', n'))"
| "encrypt_or_decrypt_value E self PNone enc n = Inr (PNone, n)"
| "encrypt_or_decrypt_value E self (PBool b) enc n = Inr (PBool b, n)"
| "encrypt_or_decrypt_value E self (PInt i) enc n = Inr (PInt i, n)"
| "encrypt_or_decrypt_value E self (PFloat w) enc n = Inr (PFloat w, n)"
| "encrypt_or_decrypt_value E self (PStr s) enc n = Inr (PStr s, n)"
| "encrypt_or_decrypt_dict E self [] enc n = Inr ([], n)"
| "encrypt_or_decrypt_dict E self ((target_key, fld) # rest) enc n =
     (case target_fields self of
        None \<Rightarrow> Inl TypeError
      | Some tf \<Rightarrow>
          (case (if target_key \<in> set tf
                 then encrypt_or_decrypt_target_field E fld enc n
                 else encrypt_or_decrypt_value E self fld enc n) of
             Inl e \<Rightarrow> Inl e
           | Inr (fld', n') \<Rightarrow>
               (case encrypt_or_decrypt_dict E self rest enc n' of
                  Inl e \<Rightarrow> Inl e
                | Inr (rest', n'') \<Rightarrow> Inr ((target_key, fld') # rest', n''))))"
| "encrypt_or_decrypt_list E self [] enc n = Inr ([], n)"
| "encrypt_or_decrypt_list E self (item # rest) enc n =
     (case encrypt_or_decrypt_value E self item enc n of
        Inl e \<Rightarrow> Inl e
      | Inr (item', n') \<Rightarrow>
          (case encrypt_or_decrypt_list E self rest enc n' of
             Inl e \<Rightarrow> Inl e
           | Inr (rest', n'') \<Rightarrow> Inr (item' # rest', n'')))"

definition EncryptedJSONField_get_prep_value ::
  "'k env \<Rightarrow> 'a json_field_scheme \<Rightarrow> pyvalue \<Rightarrow> nat \<Rightarrow> py_error + (pyvalue \<times> nat)" where
  "EncryptedJSONField_get_prep_value E self v n =
     (if encrypt_all self then encrypt_or_decrypt_all E v True n
      else encrypt_or_decrypt_value E self v True n)"

definition EncryptedJSONField_to_python ::
  "'k env \<Rightarrow> 'a json_field_scheme \<Rightarrow> pyvalue \<Rightarrow> nat \<Rightarrow> py_error + (pyvalue \<times> nat)" where
  "EncryptedJSONField_to_python E self v n =
     (if v = PNone \<or> \<not> isinstance_str v \<or> already_decrypted self then Inr (v, n)
      else if encrypt_all self then encrypt_or_decrypt_all E v False n
      else
        (case v of
           PStr s \<Rightarrow>
             (case json_loads E s of
                None \<Rightarrow> Inl JSONDecodeError
              | Some w \<Rightarrow> encrypt_or_decrypt_value E self w False n)
         | _ \<Rightarrow> Inl TypeError))"

section \<open>A small instance of the external libraries\<close>

text \<open>
  Closed examples need the libraries as concrete functions. The cipher below prefixes the
  plaintext with the key, the drawn value and the letter \<open>u\<close>; a token of the key with
  another letter in that place stands for a token whose plaintext is not UTF-8, which the
  cipher of the examples never makes but its key accepts. The codec is a self-delimiting
  prefix code (integers and floats in unary), read back by a recursive-descent parser
  whose fuel is the length of the text. They stand in for Fernet and the \<open>json\<close> module
  in the examples only.
\<close>

definition demo_encrypt :: "char \<Rightarrow> nat \<Rightarrow> string \<Rightarrow> string" where
  "demo_encrypt k n s = k # char_of n # CHR ''u'' # s"

fun demo_decrypt :: "char \<Rightarrow> string \<Rightarrow> decrypt_outcome" where
  "demo_decrypt k (c # r # m # s) =
     (if c = k then (if m = CHR ''u'' then Decrypted s else RaisesUnicodeDecodeError)
      else InvalidToken)"
| "demo_decrypt k t = InvalidToken"

fun demo_dumps_str :: "string \<Rightarrow> string" where
  "demo_dumps_str [] = '';''"
| "demo_dumps_str (c # s) = CHR ''.'' # c # demo_dumps_str s"

fun demo_dumps :: "pyvalue \<Rightarrow> string" where
  "demo_dumps PNone = ''n''"
| "demo_dumps (PBool b) = (if b then ''t'' else ''f'')"
| "demo_dumps (PInt i) = (if i < 0 then ''-'' else ''+'') @ replicate (nat \<bar>i\<bar>) (CHR ''1'') @ '';''"
| "demo_dumps (PFloat w) = ''d'' @ replicate (unat w) (CHR ''1'') @ '';''"
| "demo_dumps (PStr s) = ''s'' @ demo_dumps_str s"
| "demo_dumps (PList xs) = ''['' @ concat (map demo_dumps xs) @ '']''"
| "demo_dumps (PDict kvs) =
     ''{'' @ concat (map (\<lambda>kv. demo_dumps_str (fst kv) @ demo_dumps (snd kv)) kvs) @ ''}''"

fun demo_loads_str :: "string \<Rightarrow> (string \<times> string) option" where
  "demo_loads_str [] = None"
| "demo_loads_str (d # r) =
     (if d = CHR '';'' then Some ([], r)
      else if d = CHR ''.'' then
        (case r of
           [] \<Rightarrow> None
         | c # r' \<Rightarrow> (case demo_loads_str r' of None \<Rightarrow> None | Some (s, t) \<Rightarrow> Some (c # s, t)))
      else None)"

fun demo_loads_num :: "string \<Rightarrow> (nat \<times> string) option" where
  "demo_loads_num [] = None"
| "demo_loads_num (d # r) =
     (if d = CHR '';'' then Some (0, r)
      else if d = CHR ''1'' then
        (case demo_loads_num r of None \<Rightarrow> None | Some (m, t) \<Rightarrow> Some (Suc m, t))
      else None)"

fun demo_parse :: "nat \<Rightarrow> string \<Rightarrow> (pyvalue \<times> string) option"
  and demo_parse_list :: "nat \<Rightarrow> string \<Rightarrow> (pyvalue list \<times> string) option"
  and demo_parse_dict :: "nat \<Rightarrow> string \<Rightarrow> ((string \<times> pyvalue) list \<times> string) option"
where
  "demo_parse 0 t = None"
| "demo_parse (Suc fuel) [] = None"
| "demo_parse (Suc fuel) (d # r) =
     (if d = CHR ''n'' then Some (PNone, r)
      else if d = CHR ''t'' then Some (PBool True, r)
      else if d = CHR ''f'' then Some (PBool False, r)
      else if d = CHR ''+'' then
        (case demo_loads_num r of None \<Rightarrow> None | Some (m, t) \<Rightarrow> Some (PInt (int m), t))
      else if d = CHR ''-'' then
        (case demo_loads_num r of None \<Rightarrow> None | Some (m, t) \<Rightarrow> Some (PInt (- int m), t))
      else if d = CHR ''d'' then
        (case demo_loads_num r of None \<Rightarrow> None | Some (m, t) \<Rightarrow> Some (PFloat (of_nat m), t))
      else if d = CHR ''s'' then
        (case demo_loads_str r of None \<Rightarrow> None | Some (s, t) \<Rightarrow> Some (PStr s, t))
      else if d = CHR ''['' then
        (case demo_parse_list fuel r of None \<Rightarrow> None | Some (xs, t) \<Rightarrow> Some (PList xs, t))
      else if d = CHR ''{'' then
        (case demo_parse_dict fuel r of None \<Rightarrow> None | Some (kvs, t) \<Rightarrow> Some (PDict kvs, t))
      else None)"
| "demo_parse_list 0 t = None"
| "demo_parse_list (Suc fuel) [] = None"
| "demo_parse_list (Suc fuel) (d # r) =
     (if d = CHR '']'' then Some ([], r)
      else
        (case demo_parse fuel (d # r) of
           None \<Rightarrow> None
         | Some (x, t) \<Rightarrow>
             (case demo_parse_list fuel t of None \<Rightarrow> None | Some (xs, u) \<Rightarrow> Some (x # xs, u))))"
| "demo_parse_dict 0 t = None"
| "demo_parse_dict (Suc fuel) [] = None"
| "demo_parse_dict (Suc fuel) (d # r) =
     (if d = CHR ''}'' then Some ([], r)
      else
        (case demo_loads_str (d # r) of
           None \<Rightarrow> None
         | Some (k, t) \<Rightarrow>
             (case demo_parse fuel t of
                None \<Rightarrow> None
              | Some (x, u) \<Rightarrow>
                  (case demo_parse_dict fuel u of
                     None \<Rightarrow> None
                   | Some (kvs, w) \<Rightarrow> Some ((k, x) # kvs, w)))))"

definition demo_loads :: "string \<Rightarrow> pyvalue option" where
  "demo_loads t =
     (case demo_parse (Suc (length t)) t of
        Some (v, []) \<Rightarrow> Some v
      | _ \<Rightarrow> None)"

definition demo_env :: "char list \<Rightarrow> char env" where
  "demo_env ks =
     \<lparr>fernet_keys = ks, fernet_encrypt = demo_encrypt, fernet_decrypt = demo_decrypt,
      json_dumps = demo_dumps, json_loads = demo_loads\<rparr>"

section \<open>The storage boundary and the round trip\<close>

text \<open>\<open>from_db_value\<close> passes the stored value to \<open>to_python\<close>.\<close>

definition EncryptedJSONField_from_db_value ::
  "'k env \<Rightarrow> 'a json_field_scheme \<Rightarrow> pyvalue \<Rightarrow> nat \<Rightarrow> py_error + (pyvalue \<times> nat)" where
  "EncryptedJSONField_from_db_value E self v n = EncryptedJSONField_to_python E self v n"

text \<open>
  Modelled from the spec: the storage layer, which is ORM code outside the repository. It
  keeps a prepared value as one string: the token itself under \<open>encrypt_all\<close>, the JSON
  text of the prepared structure under a target-field policy (sections 4.2 and 6 of the
  specification). \<open>seal\<close> is \<open>get_prep_value\<close> followed by that step, \<open>unseal\<close> is
  \<open>from_db_value\<close> on the stored string.
\<close>

definition stored :: "'k env \<Rightarrow> 'a json_field_scheme \<Rightarrow> pyvalue \<Rightarrow> pyvalue" where
  "stored E self p = (if encrypt_all self then p else PStr (json_dumps E p))"

definition seal ::
  "'k env \<Rightarrow> 'a json_field_scheme \<Rightarrow> pyvalue \<Rightarrow> nat \<Rightarrow> py_error + (pyvalue \<times> nat)" where
  "seal E self v n =
     (case EncryptedJSONField_get_prep_value E self v n of
        Inl e \<Rightarrow> Inl e
      | Inr (p, n') \<Rightarrow> Inr (stored E self p, n'))"

definition unseal ::
  "'k env \<Rightarrow> 'a json_field_scheme \<Rightarrow> pyvalue \<Rightarrow> nat \<Rightarrow> py_error + (pyvalue \<times> nat)" where
  "unseal E self t n = EncryptedJSONField_from_db_value E self t n"

text \<open>
  What unsealing gives back for a value sealed under the target fields \<open>tf\<close>: the value
  itself, but for the mappings and sequences held by a target key, of which the JSON
  text comes back. It is used to state what the code does, and is no part of the code.
\<close>

fun unsealed_image :: "'k env \<Rightarrow> string list \<Rightarrow> pyvalue \<Rightarrow> pyvalue"
  and unsealed_image_dict ::
    "'k env \<Rightarrow> string list \<Rightarrow> (string \<times> pyvalue) list \<Rightarrow> (string \<times> pyvalue) list"
  and unsealed_image_list :: "'k env \<Rightarrow> string list \<Rightarrow> pyvalue list \<Rightarrow> pyvalue list"
where
  "unsealed_image E tf (PDict kvs) = PDict (unsealed_image_dict E tf kvs)"
| "unsealed_image E tf (PList xs) = PList (unsealed_image_list E tf xs)"
| "unsealed_image E tf PNone = PNone"
| "unsealed_image E tf (PBool b) = PBool b"
| "unsealed_image E tf (PInt i) = PInt i"
| "unsealed_image E tf (PFloat w) = PFloat w"
| "unsealed_image E tf (PStr s) = PStr s"
| "unsealed_image_dict E tf [] = []"
| "unsealed_image_dict E tf ((k, f) # rest) =
     (k, if k \<in> set tf
         then (if isinstance_dict_list f then PStr (json_dumps E f) else f)
         else unsealed_image E tf f)
     # unsealed_image_dict E tf rest"
| "unsealed_image_list E tf [] = []"
| "unsealed_image_list E tf (x # rest) = unsealed_image E tf x # unsealed_image_list E tf rest"

text \<open>
  \<open>opens D E k\<close>: the environment \<open>D\<close> at unsealing time decrypts every token that key
  \<open>k\<close> made in \<open>E\<close>.
\<close>

definition opens :: "'k env \<Rightarrow> 'k env \<Rightarrow> 'k \<Rightarrow> bool" where
  "opens D E k \<longleftrightarrow> (\<forall>n s. decrypt D (PStr (fernet_encrypt E k n s)) = Inr s)"

text \<open>
  The plaintext that \<open>_encrypt_or_decrypt_target_field\<close> encrypts for the value of a
  target key, and the relation between an entry of a mapping and the entry the walk puts
  in its place, with the counter of the encryption call between \<open>lo\<close> and \<open>hi\<close>.
\<close>

definition target_plaintext :: "'k env \<Rightarrow> pyvalue \<Rightarrow> string option" where
  "target_plaintext E f =
     (if isinstance_dict_list f then Some (json_dumps E f)
      else (case f of PStr s \<Rightarrow> Some s | _ \<Rightarrow> None))"

definition sealed_entry ::
  "'k env \<Rightarrow> 'k \<Rightarrow> string list \<Rightarrow> nat \<Rightarrow> nat \<Rightarrow> string \<times> pyvalue \<Rightarrow> string \<times> pyvalue \<Rightarrow> bool" where
  "sealed_entry E k tf lo hi kv kv' \<longleftrightarrow>
     fst kv' = fst kv
     \<and> (fst kv \<in> set tf \<longrightarrow>
          (\<exists>m pt. lo \<le> m \<and> m < hi \<and> target_plaintext E (snd kv) = Some pt
             \<and> snd kv' = PStr (fernet_encrypt E k m pt)))"

text \<open>
  The reading of the specification, section 4.2, that a mapping or sequence under a
  target key is sealed leaf by leaf: the sealed value has the shape of the original, and
  every string leaf is a token of its own that decrypts to the leaf.
\<close>

fun leafwise_sealed :: "'k env \<Rightarrow> pyvalue \<Rightarrow> pyvalue \<Rightarrow> bool"
  and leafwise_sealed_dict ::
    "'k env \<Rightarrow> (string \<times> pyvalue) list \<Rightarrow> (string \<times> pyvalue) list \<Rightarrow> bool"
  and leafwise_sealed_list :: "'k env \<Rightarrow> pyvalue list \<Rightarrow> pyvalue list \<Rightarrow> bool"
where
  "leafwise_sealed E (PDict kvs) w =
     (case w of PDict kvs' \<Rightarrow> leafwise_sealed_dict E kvs kvs' | _ \<Rightarrow> False)"
| "leafwise_sealed E (PList xs) w =
     (case w of PList xs' \<Rightarrow> leafwise_sealed_list E xs xs' | _ \<Rightarrow> False)"
| "leafwise_sealed E (PStr s) w =
     (case w of PStr t \<Rightarrow> decrypt E (PStr t) = Inr s | _ \<Rightarrow> False)"
| "leafwise_sealed E PNone w = isinstance_str w"
| "leafwise_sealed E (PBool b) w = isinstance_str w"
| "leafwise_sealed E (PInt i) w = isinstance_str w"
| "leafwise_sealed E (PFloat x) w = isinstance_str w"
| "leafwise_sealed_dict E [] kvs' = (kvs' = [])"
| "leafwise_sealed_dict E ((k, f) # rest) kvs' =
     (case kvs' of
        [] \<Rightarrow> False
      | kv' # rest' \<Rightarrow>
          fst kv' = k \<and> leafwise_sealed E f (snd kv') \<and> leafwise_sealed_dict E rest rest')"
| "leafwise_sealed_list E [] xs' = (xs' = [])"
| "leafwise_sealed_list E (x # rest) xs' =
     (case xs' of
        [] \<Rightarrow> False
      | x' # rest' \<Rightarrow> leafwise_sealed E x x' \<and> leafwise_sealed_list E rest rest')"

text \<open>The field of the examples: target field \<open>secret\<close>.\<close>

definition demo_field :: json_field where
  "demo_field = \<lparr>already_decrypted = False, encrypt_all = False, target_fields = Some [''secret'']\<rparr>"

section \<open>The walk over mutable objects\<close>

text \<open>
  Whether the walk changes the caller's structure depends on which \<open>dict\<close> and \<open>list\<close>
  objects it writes to, so here the containers live in a store. A value is a scalar or a
  reference to a container; a container holds values. An address below \<open>lim\<close> is
  allocated; a new object takes the address \<open>lim\<close>. The state also holds the counter of
  encryption calls and the list \<open>self.fernet_keys\<close>.
\<close>

datatype hval = HNone | HBool bool | HInt int | HFloat "64 word" | HStr string | HRef nat

datatype cell = CDict "(string \<times> hval) list" | CList "hval list"

record 'k state =
  cells :: "nat \<Rightarrow> cell"
  lim :: nat
  calls :: nat
  ring :: "'k list"

definition new_cell :: "cell \<Rightarrow> 'k state \<Rightarrow> nat \<times> 'k state" where
  "new_cell c s = (lim s, s\<lparr>cells := (cells s)(lim s := c), lim := Suc (lim s)\<rparr>)"

text \<open>The libraries with the key ring as the state holds it.\<close>

definition with_ring :: "'k env \<Rightarrow> 'k state \<Rightarrow> 'k env" where
  "with_ring E s = E\<lparr>fernet_keys := ring s\<rparr>"

text \<open>
  A scalar as \<open>_encrypt\<close> and \<open>_decrypt\<close> receive it. They ask of a container only that it
  is no \<open>str\<close>, so any container is passed as the empty list.
\<close>

fun pyscalar :: "hval \<Rightarrow> pyvalue" where
  "pyscalar HNone = PNone"
| "pyscalar (HBool b) = PBool b"
| "pyscalar (HInt i) = PInt i"
| "pyscalar (HFloat w) = PFloat w"
| "pyscalar (HStr s) = PStr s"
| "pyscalar (HRef a) = PList []"

text \<open>
  The value that a reference denotes, as \<open>json.dumps\<close> reads it: it only reads the store,
  it refuses a container that holds itself (the list \<open>markers\<close> of the containers being
  read), and its nesting is bounded by the interpreter's limit \<open>d\<close>.
\<close>

fun reify :: "nat \<Rightarrow> 'k state \<Rightarrow> nat list \<Rightarrow> hval \<Rightarrow> py_error + pyvalue"
  and reify_dict ::
    "nat \<Rightarrow> 'k state \<Rightarrow> nat list \<Rightarrow> (string \<times> hval) list \<Rightarrow> py_error + (string \<times> pyvalue) list"
  and reify_list :: "nat \<Rightarrow> 'k state \<Rightarrow> nat list \<Rightarrow> hval list \<Rightarrow> py_error + pyvalue list"
where
  "reify 0 s markers v = Inl RecursionError"
| "reify (Suc d) s markers v =
     (case v of
        HRef a \<Rightarrow>
          (if a \<in> set markers then Inl (ValueError ''Circular reference detected'')
           else
             (case cells s a of
                CDict kvs \<Rightarrow>
                  (case reify_dict d s (a # markers) kvs of
                     Inl e \<Rightarrow> Inl e
                   | Inr kvs' \<Rightarrow> Inr (PDict kvs'))
              | CList xs \<Rightarrow>
                  (case reify_list d s (a # markers) xs of
                     Inl e \<Rightarrow> Inl e
                   | Inr xs' \<Rightarrow> Inr (PList xs'))))
      | _ \<Rightarrow> Inr (pyscalar v))"
| "reify_dict d s markers [] = Inr []"
| "reify_dict d s markers ((k, f) # rest) =
     (case reify d s markers f of
        Inl e \<Rightarrow> Inl e
      | Inr f' \<Rightarrow>
          (case reify_dict d s markers rest of
             Inl e \<Rightarrow> Inl e
           | Inr rest' \<Rightarrow> Inr ((k, f') # rest')))"
| "reify_list d s markers [] = Inr []"
| "reify_list d s markers (x # rest) =
     (case reify d s markers x of
        Inl e \<Rightarrow> Inl e
      | Inr x' \<Rightarrow>
          (case reify_list d s markers rest of
             Inl e \<Rightarrow> Inl e
           | Inr rest' \<Rightarrow> Inr (x' # rest')))"

text \<open>The objects that \<open>json.loads\<close> builds for a parsed value, all of them new.\<close>

fun alloc :: "pyvalue \<Rightarrow> 'k state \<Rightarrow> hval \<times> 'k state"
  and alloc_dict :: "(string \<times> pyvalue) list \<Rightarrow> 'k state \<Rightarrow> (string \<times> hval) list \<times> 'k state"
  and alloc_list :: "pyvalue list \<Rightarrow> 'k state \<Rightarrow> hval list \<times> 'k state"
where
  "alloc PNone s = (HNone, s)"
| "alloc (PBool b) s = (HBool b, s)"
| "alloc (PInt i) s = (HInt i, s)"
| "alloc (PFloat w) s = (HFloat w, s)"
| "alloc (PStr t) s = (HStr t, s)"
| "alloc (PList xs) s =
     (case alloc_list xs s of (xs', s1) \<Rightarrow>
        (case new_cell (CList xs') s1 of (a, s2) \<Rightarrow> (HRef a, s2)))"
| "alloc (PDict kvs) s =
     (case alloc_dict kvs s of (kvs', s1) \<Rightarrow>
        (case new_cell (CDict kvs') s1 of (a, s2) \<Rightarrow> (HRef a, s2)))"
| "alloc_dict [] s = ([], s)"
| "alloc_dict ((k, f) # rest) s =
     (case alloc f s of (f', s1) \<Rightarrow>
        (case alloc_dict rest s1 of (rest', s2) \<Rightarrow> ((k, f') # rest', s2)))"
| "alloc_list [] s = ([], s)"
| "alloc_list (x # rest) s =
     (case alloc x s of (x', s1) \<Rightarrow>
        (case alloc_list rest s1 of (rest', s2) \<Rightarrow> (x' # rest', s2)))"

text \<open>
  \<open>_encrypt_or_decrypt_all\<close> and \<open>_encrypt_or_decrypt_target_field\<close> on the store; \<open>d\<close> is
  the number of nested calls left before \<open>RecursionError\<close>. \<open>isinstance(value, (dict,
  list))\<close> holds of a reference.
\<close>

definition encrypt_or_decrypt_all_h ::
  "'k env \<Rightarrow> nat \<Rightarrow> hval \<Rightarrow> bool \<Rightarrow> 'k state \<Rightarrow> (py_error + hval) \<times> 'k state" where
  "encrypt_or_decrypt_all_h E d v enc s =
     (if enc then
        (case reify d s [] v of
           Inl e \<Rightarrow> (Inl e, s)
         | Inr p \<Rightarrow>
             (case encrypt (with_ring E s) (PStr (json_dumps E p)) (calls s) of
                Inl e \<Rightarrow> (Inl e, s)
              | Inr (t, n') \<Rightarrow> (Inr (HStr t), s\<lparr>calls := n'\<rparr>)))
      else
        (case decrypt (with_ring E s) (pyscalar v) of
           Inl e \<Rightarrow> (Inl e, s)
         | Inr p \<Rightarrow>
             (case json_loads E p of
                None \<Rightarrow> (Inl JSONDecodeError, s)
              | Some w \<Rightarrow> (case alloc w s of (v', s') \<Rightarrow> (Inr v', s')))))"

definition encrypt_or_decrypt_target_field_h ::
  "'k env \<Rightarrow> nat \<Rightarrow> hval \<Rightarrow> bool \<Rightarrow> 'k state \<Rightarrow> (py_error + hval) \<times> 'k state" where
  "encrypt_or_decrypt_target_field_h E d v enc s =
     (case v of
        HRef a \<Rightarrow> encrypt_or_decrypt_all_h E d v enc s
      | _ \<Rightarrow>
          (if enc then
             (case encrypt (with_ring E s) (pyscalar v) (calls s) of
                Inl e \<Rightarrow> (Inl e, s)
              | Inr (t, n') \<Rightarrow> (Inr (HStr t), s\<lparr>calls := n'\<rparr>))
           else
             (case decrypt (with_ring E s) (pyscalar v) of
                Inl e \<Rightarrow> (Inl e, s)
              | Inr p \<Rightarrow> (Inr (HStr p), s))))"

text \<open>\<open>return_value[target_key] = ...\<close> on the dictionary at address \<open>b\<close>.\<close>

definition setitem :: "nat \<Rightarrow> string \<Rightarrow> hval \<Rightarrow> 'k state \<Rightarrow> 'k state" where
  "setitem b k v s =
     s\<lparr>cells := (cells s)(b :=
          (case cells s b of CDict cur \<Rightarrow> CDict (AList.update k v cur) | CList xs \<Rightarrow> CList xs))\<rparr>"

text \<open>
  \<open>_encrypt_or_decrypt_value\<close>, \<open>_encrypt_or_decrypt_dict\<close> and
  \<open>_encrypt_or_decrypt_list\<close> on the store. For a dictionary, \<open>value.copy()\<close> makes the new
  object \<open>b\<close> with the same items, and the loop assigns into \<open>b\<close> for each item in turn;
  the loop runs over the items the copy had when it was made. For a list, the
  comprehension computes the items and then makes the new list. An exception leaves the
  store as it was when it was raised.
\<close>

fun encrypt_or_decrypt_value_h ::
    "'k env \<Rightarrow> 'a json_field_scheme \<Rightarrow> nat \<Rightarrow> hval \<Rightarrow> bool \<Rightarrow> 'k state
       \<Rightarrow> (py_error + hval) \<times> 'k state"
  and encrypt_or_decrypt_dict_h ::
    "'k env \<Rightarrow> 'a json_field_scheme \<Rightarrow> nat \<Rightarrow> nat \<Rightarrow> (string \<times> hval) list \<Rightarrow> bool \<Rightarrow> 'k state
       \<Rightarrow> (py_error + unit) \<times> 'k state"
  and encrypt_or_decrypt_list_h ::
    "'k env \<Rightarrow> 'a json_field_scheme \<Rightarrow> nat \<Rightarrow> hval list \<Rightarrow> bool \<Rightarrow> 'k state
       \<Rightarrow> (py_error + hval list) \<times> 'k state"
where
  "encrypt_or_decrypt_value_h E self 0 v enc s = (Inl RecursionError, s)"
| "encrypt_or_decrypt_value_h E self (Suc d) v enc s =
     (case v of
        HRef a \<Rightarrow>
          (case cells s a of
             CDict kvs \<Rightarrow>
               (case new_cell (CDict kvs) s of
                  (b, s1) \<Rightarrow>
                    (case encrypt_or_decrypt_dict_h E self d b kvs enc s1 of
                       (Inl e, s2) \<Rightarrow> (Inl e, s2)
                     | (Inr u, s2) \<Rightarrow> (Inr (HRef b), s2)))
           | CList xs \<Rightarrow>
               (case encrypt_or_decrypt_list_h E self d xs enc s of
                  (Inl e, s1) \<Rightarrow> (Inl e, s1)
                | (Inr ys, s1) \<Rightarrow>
                    (case new_cell (CList ys) s1 of (b, s2) \<Rightarrow> (Inr (HRef b), s2))))
      | _ \<Rightarrow> (Inr v, s))"
| "encrypt_or_decrypt_dict_h E self d b [] enc s = (Inr (), s)"
| "encrypt_or_decrypt_dict_h E self d b ((target_key, fld) # rest) enc s =
     (case target_fields self of
        None \<Rightarrow> (Inl TypeError, s)
      | Some tf \<Rightarrow>
          (case (if target_key \<in> set tf
                 then encrypt_or_decrypt_target_field_h E d fld enc s
                 else encrypt_or_decrypt_value_h E self d fld enc s) of
             (Inl e, s1) \<Rightarrow> (Inl e, s1)
           | (Inr fld', s1) \<Rightarrow>
               encrypt_or_decrypt_dict_h E self d b rest enc (setitem b target_key fld' s1)))"
| "encrypt_or_decrypt_list_h E self d [] enc s = (Inr [], s)"
| "encrypt_or_decrypt_list_h E self d (item # rest) enc s =
     (case encrypt_or_decrypt_value_h E self d item enc s of
        (Inl e, s1) \<Rightarrow> (Inl e, s1)
      | (Inr item', s1) \<Rightarrow>
          (case encrypt_or_decrypt_list_h E self d rest enc s1 of
             (Inl e, s2) \<Rightarrow> (Inl e, s2)
           | (Inr rest', s2) \<Rightarrow> (Inr (item' # rest'), s2)))"

definition EncryptedJSONField_get_prep_value_h ::
  "'k env \<Rightarrow> 'a json_field_scheme \<Rightarrow> nat \<Rightarrow> hval \<Rightarrow> 'k state \<Rightarrow> (py_error + hval) \<times> 'k state" where
  "EncryptedJSONField_get_prep_value_h E self d v s =
     (if encrypt_all self then encrypt_or_decrypt_all_h E d v True s
      else encrypt_or_decrypt_value_h E self d v True s)"

definition EncryptedJSONField_to_python_h ::
  "'k env \<Rightarrow> 'a json_field_scheme \<Rightarrow> nat \<Rightarrow> hval \<Rightarrow> 'k state \<Rightarrow> (py_error + hval) \<times> 'k state" where
  "EncryptedJSONField_to_python_h E self d v s =
     (case v of
        HStr t \<Rightarrow>
          (if already_decrypted self then (Inr v, s)
           else if encrypt_all self then encrypt_or_decrypt_all_h E d v False s
           else
             (case json_loads E t of
                None \<Rightarrow> (Inl JSONDecodeError, s)
              | Some w \<Rightarrow>
                  (case alloc w s of
                     (v', s1) \<Rightarrow> encrypt_or_decrypt_value_h E self d v' False s1)))
      | _ \<Rightarrow> (Inr v, s))"

text \<open>
  \<open>frame l s s'\<close>: from \<open>s\<close> to \<open>s'\<close> nothing was freed, the containers below address \<open>l\<close>
  are as they were, and the key ring is as it was. A store is closed when the containers
  it has allocated refer to allocated containers only.
\<close>

definition frame :: "nat \<Rightarrow> 'k state \<Rightarrow> 'k state \<Rightarrow> bool" where
  "frame l s s' \<longleftrightarrow>
     lim s \<le> lim s' \<and> (\<forall>a<l. cells s' a = cells s a) \<and> ring s' = ring s"

fun refs_below :: "nat \<Rightarrow> hval \<Rightarrow> bool" where
  "refs_below l (HRef a) = (a < l)"
| "refs_below l v = True"

fun cell_below :: "nat \<Rightarrow> cell \<Rightarrow> bool" where
  "cell_below l (CDict kvs) = list_all (\<lambda>kv. refs_below l (snd kv)) kvs"
| "cell_below l (CList xs) = list_all (refs_below l) xs"

definition closed_heap :: "'k state \<Rightarrow> bool" where
  "closed_heap s \<longleftrightarrow> (\<forall>a<lim s. cell_below (lim s) (cells s a))"

text \<open>
  \<open>denotes_in l h s v p\<close>: in the store \<open>s\<close> the value \<open>v\<close> stands for the Python value
  \<open>p\<close>, through containers at the addresses from \<open>l\<close> up to \<open>h\<close> only. Only a structure
  that does not hold itself stands for a value. \<open>distinct_keys p\<close>: every dictionary in
  \<open>p\<close> has each key once, as a Python dictionary has.
\<close>

inductive denotes_in :: "nat \<Rightarrow> nat \<Rightarrow> 'k state \<Rightarrow> hval \<Rightarrow> pyvalue \<Rightarrow> bool"
  and denotes_dict_in ::
    "nat \<Rightarrow> nat \<Rightarrow> 'k state \<Rightarrow> (string \<times> hval) list \<Rightarrow> (string \<times> pyvalue) list \<Rightarrow> bool"
  and denotes_list_in :: "nat \<Rightarrow> nat \<Rightarrow> 'k state \<Rightarrow> hval list \<Rightarrow> pyvalue list \<Rightarrow> bool"
  for l :: nat and h :: nat and s :: "'k state"
where
  d_none: "denotes_in l h s HNone PNone"
| d_bool: "denotes_in l h s (HBool b) (PBool b)"
| d_int: "denotes_in l h s (HInt i) (PInt i)"
| d_float: "denotes_in l h s (HFloat w) (PFloat w)"
| d_str: "denotes_in l h s (HStr t) (PStr t)"
| d_dict: "l \<le> a \<Longrightarrow> a < h \<Longrightarrow> cells s a = CDict kvs \<Longrightarrow> denotes_dict_in l h s kvs pkvs
     \<Longrightarrow> denotes_in l h s (HRef a) (PDict pkvs)"
| d_list: "l \<le> a \<Longrightarrow> a < h \<Longrightarrow> cells s a = CList xs \<Longrightarrow> denotes_list_in l h s xs pxs
     \<Longrightarrow> denotes_in l h s (HRef a) (PList pxs)"
| dd_nil: "denotes_dict_in l h s [] []"
| dd_cons: "denotes_in l h s f p \<Longrightarrow> denotes_dict_in l h s rest prest
     \<Longrightarrow> denotes_dict_in l h s ((k, f) # rest) ((k, p) # prest)"
| dl_nil: "denotes_list_in l h s [] []"
| dl_cons: "denotes_in l h s x p \<Longrightarrow> denotes_list_in l h s rest prest
     \<Longrightarrow> denotes_list_in l h s (x # rest) (p # prest)"

code_pred denotes_in .

fun distinct_keys :: "pyvalue \<Rightarrow> bool"
  and distinct_keys_dict :: "(string \<times> pyvalue) list \<Rightarrow> bool"
  and distinct_keys_list :: "pyvalue list \<Rightarrow> bool"
where
  "distinct_keys (PDict kvs) = (distinct (map fst kvs) \<and> distinct_keys_dict kvs)"
| "distinct_keys (PList xs) = distinct_keys_list xs"
| "distinct_keys PNone = True"
| "distinct_keys (PBool b) = True"
| "distinct_keys (PInt i) = True"
| "distinct_keys (PFloat w) = True"
| "distinct_keys (PStr t) = True"
| "distinct_keys_dict [] = True"
| "distinct_keys_dict ((k, f) # rest) = (distinct_keys f \<and> distinct_keys_dict rest)"
| "distinct_keys_list [] = True"
| "distinct_keys_list (x # rest) = (distinct_keys x \<and> distinct_keys_list rest)"

text \<open>A store for the examples: a dictionary at address 0 holding the list at address 1.\<close>

definition demo_state :: "char state" where
  "demo_state =
     \<lparr>cells = (\<lambda>a. CList [])
        (0 := CDict [(''secret'', HStr ''x''), (''items'', HRef 1)],
         1 := CList [HStr ''y'']),
      lim = 2, calls = 0, ring = ''k''\<rparr>"

section \<open>Facts about \<open>_encrypt\<close> and \<open>_decrypt\<close>\<close>

lemma encrypt_str:
  "fernet_keys E = k # ks \<Longrightarrow> encrypt E (PStr s) n = Inr (fernet_encrypt E k n s, Suc n)"
  by (simp add: encrypt_def)

lemma encrypt_Inr:
  "encrypt E v n = Inr (t, n') \<Longrightarrow>
     \<exists>k ks s. fernet_keys E = k # ks \<and> v = PStr s \<and> t = fernet_encrypt E k n s \<and> n' = Suc n"
  by (auto simp: encrypt_def split: list.splits pyvalue.splits)

lemma encrypt_Inl:
  "encrypt E v n = Inl e \<Longrightarrow> e = IndexError \<or> e = TypeError"
  by (auto simp: encrypt_def split: list.splits pyvalue.splits)

lemma decrypt_head:
  "fernet_correct E \<Longrightarrow> fernet_keys E = k # ks
     \<Longrightarrow> decrypt E (PStr (fernet_encrypt E k n s)) = Inr s"
  by (simp add: decrypt_def fernet_correct_def)

lemma decrypt_rotated:
  "fernet_correct E \<Longrightarrow> fernet_authentic E \<Longrightarrow> fernet_keys E = [new, old]
     \<Longrightarrow> decrypt E (PStr (fernet_encrypt E old n s)) = Inr s"
  by (cases "new = old") (auto simp: decrypt_def fernet_correct_def fernet_authentic_def)

lemma opens_head:
  "fernet_correct E \<Longrightarrow> fernet_keys E = k # ks \<Longrightarrow> opens E E k"
  by (simp add: opens_def decrypt_head)

lemma opens_rotated:
  "fernet_correct E \<Longrightarrow> fernet_authentic E \<Longrightarrow>
     opens (E\<lparr>fernet_keys := [new, old]\<rparr>) (E\<lparr>fernet_keys := [old]\<rparr>) old"
  using decrypt_rotated [of "E\<lparr>fernet_keys := [new, old]\<rparr>" new old]
  by (simp add: opens_def fernet_correct_def fernet_authentic_def)

lemma decrypt_loop_find:
  "decrypt_loop E ks (PStr t) =
     (case find (\<lambda>k. fernet_decrypt E k t \<noteq> InvalidToken) ks of
        None \<Rightarrow> Inl DecryptionFailed
      | Some k \<Rightarrow> raised (fernet_decrypt E k t))"
  by (induction ks) (auto simp: DecryptionFailed_def split: decrypt_outcome.splits)

lemma decrypt_loop_failed_iff:
  "decrypt_loop E ks (PStr t) = Inl DecryptionFailed
     \<longleftrightarrow> (\<forall>k \<in> set ks. fernet_decrypt E k t = InvalidToken)"
  by (induction ks) (auto simp: DecryptionFailed_def split: decrypt_outcome.splits)

lemma decrypt_loop_Inr:
  "decrypt_loop E ks (PStr t) = Inr p \<Longrightarrow> \<exists>k \<in> set ks. fernet_decrypt E k t = Decrypted p"
  by (induction ks) (auto split: decrypt_outcome.splits)

lemma decrypt_loop_Inl:
  "decrypt_loop E ks (PStr t) = Inl e \<Longrightarrow>
     e = DecryptionFailed
     \<or> (e = UnicodeEncodeError \<and> (\<exists>k \<in> set ks. fernet_decrypt E k t = RaisesUnicodeEncodeError))
     \<or> (e = UnicodeDecodeError \<and> (\<exists>k \<in> set ks. fernet_decrypt E k t = RaisesUnicodeDecodeError))"
  by (induction ks) (auto simp: DecryptionFailed_def split: decrypt_outcome.splits)

lemma find_first:
  "\<forall>k' \<in> set ks. \<not> P k' \<Longrightarrow> P k \<Longrightarrow> find P (ks @ k # ks') = Some k"
  by (induction ks) auto

section \<open>The key ring\<close>

text \<open>
  Claim C3, as amended. For every key ring and every token, \<open>_decrypt\<close> tries the keys in
  order and gives what the first key that does not reject the token gives: its plaintext,
  or the \<open>UnicodeEncodeError\<close> or \<open>UnicodeDecodeError\<close> that converting the token or the
  plaintext raised. It returns the plaintext of the first key that accepts the token when
  the keys before it reject it, and it returns no value but a plaintext that a key of the
  ring recovered. It fails with \<open>DecryptionFailed\<close> exactly when every key of the ring
  rejects the token. The errors it can fail with are \<open>DecryptionFailed\<close> and those two; and
  for a token on which no key raises one of the two, \<open>DecryptionFailed\<close> is the only one.
\<close>

theorem decrypt_first_accepting_key:
  "decrypt E (PStr t) =
     (case find (\<lambda>k. fernet_decrypt E k t \<noteq> InvalidToken) (fernet_keys E) of
        None \<Rightarrow> Inl DecryptionFailed
      | Some k \<Rightarrow> raised (fernet_decrypt E k t))
   \<and> (\<forall>ks k ks' p.
         fernet_keys E = ks @ k # ks'
         \<and> (\<forall>k' \<in> set ks. fernet_decrypt E k' t = InvalidToken)
         \<and> fernet_decrypt E k t = Decrypted p
         \<longrightarrow> decrypt E (PStr t) = Inr p)
   \<and> (\<forall>p. decrypt E (PStr t) = Inr p
         \<longrightarrow> (\<exists>k \<in> set (fernet_keys E). fernet_decrypt E k t = Decrypted p))
   \<and> (decrypt E (PStr t) = Inl DecryptionFailed
        \<longleftrightarrow> (\<forall>k \<in> set (fernet_keys E). fernet_decrypt E k t = InvalidToken))
   \<and> (\<forall>e. decrypt E (PStr t) = Inl e
         \<longrightarrow> e = DecryptionFailed \<or> e = UnicodeEncodeError \<or> e = UnicodeDecodeError)
   \<and> ((\<forall>k \<in> set (fernet_keys E).
          fernet_decrypt E k t \<noteq> RaisesUnicodeEncodeError
          \<and> fernet_decrypt E k t \<noteq> RaisesUnicodeDecodeError)
        \<longrightarrow> (\<forall>e. decrypt E (PStr t) = Inl e \<longrightarrow> e = DecryptionFailed))"
proof (intro conjI allI impI)
  show c1: "decrypt E (PStr t) =
     (case find (\<lambda>k. fernet_decrypt E k t \<noteq> InvalidToken) (fernet_keys E) of
        None \<Rightarrow> Inl DecryptionFailed
      | Some k \<Rightarrow> raised (fernet_decrypt E k t))"
    by (simp add: decrypt_def decrypt_loop_find)
  show "decrypt E (PStr t) = Inr p"
    if h: "fernet_keys E = ks @ k # ks'
         \<and> (\<forall>k' \<in> set ks. fernet_decrypt E k' t = InvalidToken)
         \<and> fernet_decrypt E k t = Decrypted p" for ks k ks' p
  proof -
    have "find (\<lambda>k. fernet_decrypt E k t \<noteq> InvalidToken) (ks @ k # ks') = Some k"
      using h by (intro find_first) auto
    with h show ?thesis by (simp add: c1)
  qed
  show "\<exists>k \<in> set (fernet_keys E). fernet_decrypt E k t = Decrypted p"
    if "decrypt E (PStr t) = Inr p" for p
    using that decrypt_loop_Inr [of E "fernet_keys E" t p] by (simp add: decrypt_def)
  show "decrypt E (PStr t) = Inl DecryptionFailed
        \<longleftrightarrow> (\<forall>k \<in> set (fernet_keys E). fernet_decrypt E k t = InvalidToken)"
    by (simp add: decrypt_def decrypt_loop_failed_iff)
  show "e = DecryptionFailed \<or> e = UnicodeEncodeError \<or> e = UnicodeDecodeError"
    if "decrypt E (PStr t) = Inl e" for e
    using that decrypt_loop_Inl [of E "fernet_keys E" t e] by (auto simp: decrypt_def)
  show "e = DecryptionFailed"
    if "\<forall>k \<in> set (fernet_keys E).
          fernet_decrypt E k t \<noteq> RaisesUnicodeEncodeError
          \<and> fernet_decrypt E k t \<noteq> RaisesUnicodeDecodeError"
      and "decrypt E (PStr t) = Inl e" for e
    using that decrypt_loop_Inl [of E "fernet_keys E" t e] by (auto simp: decrypt_def)
qed

text \<open>
  With the ring \<open>[a, b]\<close>, a token made under \<open>b\<close> is opened by the second key, and a
  token made under a key outside the ring is refused.
\<close>

theorem decrypt_first_accepting_key_witness:
  "decrypt (demo_env ''ab'') (PStr (demo_encrypt (CHR ''b'') 0 ''hi'')) = Inr ''hi''
   \<and> decrypt (demo_env ''ab'') (PStr (demo_encrypt (CHR ''c'') 0 ''hi'')) = Inl DecryptionFailed"
proof -
  let ?E = "demo_env ''ab''"
  let ?t = "demo_encrypt (CHR ''b'') 0 ''hi''"
  let ?u = "demo_encrypt (CHR ''c'') 0 ''hi''"
  have "fernet_keys ?E = ''a'' @ CHR ''b'' # []
        \<and> (\<forall>k' \<in> set ''a''. fernet_decrypt ?E k' ?t = InvalidToken)
        \<and> fernet_decrypt ?E (CHR ''b'') ?t = Decrypted ''hi''"
    by (simp add: demo_env_def demo_encrypt_def)
  then have "decrypt ?E (PStr ?t) = Inr ''hi''"
    using decrypt_first_accepting_key [of ?E ?t] by blast
  moreover have "\<forall>k \<in> set (fernet_keys ?E). fernet_decrypt ?E k ?u = InvalidToken"
    by (simp add: demo_env_def demo_encrypt_def)
  then have "decrypt ?E (PStr ?u) = Inl DecryptionFailed"
    using decrypt_first_accepting_key [of ?E ?u] by blast
  ultimately show ?thesis by simp
qed

text \<open>
  Claim C3 as stated fails: with the ring \<open>[a]\<close>, a token that the key \<open>a\<close> accepts and
  whose plaintext is not UTF-8 makes \<open>_decrypt\<close> fail with \<open>UnicodeDecodeError\<close>, which is
  not \<open>DecryptionFailed\<close>, although the key does not reject the token.
\<close>

theorem decrypt_raises_unicode_decode_error:
  "decrypt (demo_env ''a'') (PStr ''a0b!'') = Inl UnicodeDecodeError
   \<and> UnicodeDecodeError \<noteq> DecryptionFailed
   \<and> fernet_decrypt (demo_env ''a'') (CHR ''a'') ''a0b!'' \<noteq> InvalidToken"
  by (simp add: decrypt_def demo_env_def DecryptionFailed_def)



section \<open>Construction of the field\<close>

text \<open>
  Claim C5. Constructing the field with \<open>encrypt_all\<close> true and a non-empty
  \<open>target_fields\<close> fails with \<open>InvalidPolicy\<close>; constructing it with neither fails with
  \<open>InvalidPolicy\<close>; with exactly one of the two the construction succeeds and stores both
  arguments.
\<close>

theorem init_policy_validation:
  "(truthy tf \<and> ea \<longrightarrow> init ea tf = Inl InvalidPolicy_both)
   \<and> (\<not> truthy tf \<and> \<not> ea \<longrightarrow> init ea tf = Inl InvalidPolicy_neither)
   \<and> (truthy tf \<noteq> ea \<longrightarrow>
        init ea tf = Inr \<lparr>already_decrypted = False, encrypt_all = ea, target_fields = tf\<rparr>)"
  by (auto simp: init_def InvalidPolicy_both_def InvalidPolicy_neither_def)

text \<open>The five ways to call the constructor with a one-name list, no list or an empty one.\<close>

theorem init_policy_validation_witness:
  "init True (Some [''x'']) = Inl InvalidPolicy_both
   \<and> init False None = Inl InvalidPolicy_neither
   \<and> init False (Some []) = Inl InvalidPolicy_neither
   \<and> init True None =
       Inr \<lparr>already_decrypted = False, encrypt_all = True, target_fields = None\<rparr>
   \<and> init False (Some [''x'']) =
       Inr \<lparr>already_decrypted = False, encrypt_all = False, target_fields = Some [''x'']\<rparr>"
  using init_policy_validation [of "Some [''x'']" True]
    init_policy_validation [of None False]
    init_policy_validation [of "Some []" False]
    init_policy_validation [of None True]
    init_policy_validation [of "Some [''x'']" False]
  by simp

section \<open>The guard of \<open>to_python\<close>\<close>

text \<open>
  Claim C8. For every input that is \<open>None\<close> or is not a string, \<open>to_python\<close> of both
  fields returns the input unchanged, whatever the key ring and the libraries are: nothing
  is decrypted or parsed.
\<close>

theorem to_python_passthrough:
  "v = PNone \<or> \<not> isinstance_str v \<Longrightarrow>
     EncryptedJSONField_to_python E self v n = Inr (v, n)
     \<and> EncryptedTextField_to_python E tself v n = Inr (v, n)"
  by (auto simp: EncryptedJSONField_to_python_def EncryptedTextField_to_python_def)

text \<open>
  A dictionary and \<open>None\<close> come back as they are, even with an empty key ring, under which
  every decryption fails.
\<close>

theorem to_python_passthrough_witness:
  "EncryptedJSONField_to_python (demo_env [])
       \<lparr>already_decrypted = False, encrypt_all = False, target_fields = Some [''secret'']\<rparr>
       (PDict [(''secret'', PStr ''x'')]) 0
     = Inr (PDict [(''secret'', PStr ''x'')], 0)
   \<and> EncryptedTextField_to_python (demo_env []) \<lparr>already_decrypted = False\<rparr> PNone 0
     = Inr (PNone, 0)"
proof -
  have "\<not> isinstance_str (PDict [(''secret'', PStr ''x'')])" by simp
  then show ?thesis
    using to_python_passthrough [of "PDict [(''secret'', PStr ''x'')]" "demo_env []"
        "\<lparr>already_decrypted = False, encrypt_all = False, target_fields = Some [''secret'']\<rparr>"
        0 "\<lparr>already_decrypted = False\<rparr>"]
      to_python_passthrough [of PNone "demo_env []"
        "\<lparr>already_decrypted = False, encrypt_all = False, target_fields = Some [''secret'']\<rparr>"
        0 "\<lparr>already_decrypted = False\<rparr>"]
    by simp
qed

section \<open>The \<open>encrypt_all\<close> policy\<close>

text \<open>
  Claim C7. Under \<open>encrypt_all\<close>, \<open>get_prep_value\<close> of any value is the encryption of its
  JSON text as one token, a string made by one call of the library; \<open>to_python\<close> of a
  string decrypts it with the key ring and parses the plaintext as JSON; and it gives the
  sealed value back when the key opens its token and the JSON text parses back.
\<close>

theorem encrypt_all_one_token:
  assumes "encrypt_all self"
  shows "EncryptedJSONField_get_prep_value E self v n
           = (case encrypt E (PStr (json_dumps E v)) n of
                Inl e \<Rightarrow> Inl e
              | Inr (t, n') \<Rightarrow> Inr (PStr t, n'))
         \<and> (\<forall>k ks. fernet_keys E = k # ks \<longrightarrow>
               EncryptedJSONField_get_prep_value E self v n
                 = Inr (PStr (fernet_encrypt E k n (json_dumps E v)), Suc n))
         \<and> (\<not> already_decrypted self \<longrightarrow>
               EncryptedJSONField_to_python E self (PStr t) m
                 = (case decrypt E (PStr t) of
                      Inl e \<Rightarrow> Inl e
                    | Inr p \<Rightarrow>
                        (case json_loads E p of
                           None \<Rightarrow> Inl DeserializationError
                         | Some w \<Rightarrow> Inr (w, m))))
         \<and> (\<forall>k ks. \<not> already_decrypted self \<and> fernet_correct E \<and> fernet_keys E = k # ks
                 \<and> json_roundtrips E v \<longrightarrow>
               EncryptedJSONField_to_python E self
                   (PStr (fernet_encrypt E k n (json_dumps E v))) m = Inr (v, m))"
  using assms unfolding DeserializationError_def
  by (auto simp: EncryptedJSONField_get_prep_value_def EncryptedJSONField_to_python_def
      encrypt_or_decrypt_all_def encrypt_str decrypt_head json_roundtrips_def)

text \<open>A mapping holding a list, sealed with the ring \<open>[k]\<close> and unsealed.\<close>

theorem encrypt_all_one_token_witness:
  "EncryptedJSONField_get_prep_value (demo_env ''k'') (demo_field\<lparr>encrypt_all := True, target_fields := None\<rparr>)
       (PDict [(''a'', PList [PNone, PStr ''b''])]) 0
     = Inr (PStr (demo_encrypt (CHR ''k'') 0 (demo_dumps (PDict [(''a'', PList [PNone, PStr ''b''])]))), 1)
   \<and> EncryptedJSONField_to_python (demo_env ''k'') (demo_field\<lparr>encrypt_all := True, target_fields := None\<rparr>)
       (PStr (demo_encrypt (CHR ''k'') 0 (demo_dumps (PDict [(''a'', PList [PNone, PStr ''b''])])))) 1
     = Inr (PDict [(''a'', PList [PNone, PStr ''b''])], 1)"
proof -
  let ?E = "demo_env ''k''"
  let ?self = "demo_field\<lparr>encrypt_all := True, target_fields := None\<rparr>"
  let ?v = "PDict [(''a'', PList [PNone, PStr ''b''])]"
  let ?t = "demo_encrypt (CHR ''k'') 0 (demo_dumps ?v)"
  have a: "encrypt_all ?self" by (simp add: demo_field_def)
  have b: "\<not> already_decrypted ?self \<and> fernet_correct ?E \<and> fernet_keys ?E = CHR ''k'' # []
             \<and> json_roundtrips ?E ?v"
    by (simp add: demo_field_def fernet_correct_def demo_env_def demo_encrypt_def
        json_roundtrips_def demo_loads_def)
  have c: "fernet_encrypt ?E = demo_encrypt" "json_dumps ?E = demo_dumps"
    by (simp_all add: demo_env_def)
  note th = encrypt_all_one_token [OF a, of ?E ?v 0 ?t 1]
  have "EncryptedJSONField_get_prep_value ?E ?self ?v 0
          = Inr (PStr (fernet_encrypt ?E (CHR ''k'') 0 (json_dumps ?E ?v)), Suc 0)"
    using th b by blast
  moreover have "EncryptedJSONField_to_python ?E ?self
          (PStr (fernet_encrypt ?E (CHR ''k'') 0 (json_dumps ?E ?v))) 1 = Inr (?v, 1)"
    using th b by blast
  ultimately show ?thesis
    unfolding c by simp
qed

section \<open>The walk under a target-field policy\<close>

lemma target_field_seal_unseal:
  assumes "opens D E k" and "fernet_keys E = k # ks"
    and "encrypt_or_decrypt_target_field E f True n = Inr (w, n')"
  shows "encrypt_or_decrypt_target_field D w False m
           = Inr (if isinstance_dict_list f then PStr (json_dumps E f) else f, m)"
  using assms
  by (auto simp: encrypt_or_decrypt_target_field_def encrypt_or_decrypt_all_def opens_def
      split: if_splits sum.splits dest!: encrypt_Inr)

lemma value_seal_unseal:
  "encrypt_or_decrypt_value E self v enc n = Inr (w, n') \<Longrightarrow> enc \<Longrightarrow> opens D E k \<Longrightarrow>
     fernet_keys E = k # ks \<Longrightarrow> target_fields self = Some tf \<Longrightarrow>
     encrypt_or_decrypt_value D self w False m = Inr (unsealed_image E tf v, m)"
  "encrypt_or_decrypt_dict E self kvs enc n = Inr (kvs', n') \<Longrightarrow> enc \<Longrightarrow> opens D E k \<Longrightarrow>
     fernet_keys E = k # ks \<Longrightarrow> target_fields self = Some tf \<Longrightarrow>
     encrypt_or_decrypt_dict D self kvs' False m = Inr (unsealed_image_dict E tf kvs, m)"
  "encrypt_or_decrypt_list E self xs enc n = Inr (xs', n') \<Longrightarrow> enc \<Longrightarrow> opens D E k \<Longrightarrow>
     fernet_keys E = k # ks \<Longrightarrow> target_fields self = Some tf \<Longrightarrow>
     encrypt_or_decrypt_list D self xs' False m = Inr (unsealed_image_list E tf xs, m)"
proof (induction E self v enc n and E self kvs enc n and E self xs enc n
    arbitrary: w n' m and kvs' n' m and xs' n' m
    rule: encrypt_or_decrypt_value_encrypt_or_decrypt_dict_encrypt_or_decrypt_list.induct)
  case (9 E self target_key fld rest enc n)
  show ?case
  proof (cases "target_key \<in> set tf")
    case True
    from "9.prems" True obtain fld' n1 rest' where
      a: "encrypt_or_decrypt_target_field E fld True n = Inr (fld', n1)"
      and b: "encrypt_or_decrypt_dict E self rest enc n1 = Inr (rest', n')"
      and c: "kvs' = (target_key, fld') # rest'"
      by (auto split: sum.splits)
    have "encrypt_or_decrypt_dict D self rest' False m = Inr (unsealed_image_dict E tf rest, m)"
      using "9.IH"(2)[OF "9.prems"(5) _ _ b] "9.prems" True a by auto
    moreover have "encrypt_or_decrypt_target_field D fld' False m
           = Inr (if isinstance_dict_list fld then PStr (json_dumps E fld) else fld, m)"
      using target_field_seal_unseal[OF "9.prems"(3,4) a] .
    ultimately show ?thesis using True c "9.prems" by simp
  next
    case False
    from "9.prems" False obtain fld' n1 rest' where
      a: "encrypt_or_decrypt_value E self fld True n = Inr (fld', n1)"
      and b: "encrypt_or_decrypt_dict E self rest enc n1 = Inr (rest', n')"
      and c: "kvs' = (target_key, fld') # rest'"
      by (auto split: sum.splits)
    have "encrypt_or_decrypt_dict D self rest' False m = Inr (unsealed_image_dict E tf rest, m)"
      using "9.IH"(2)[OF "9.prems"(5) _ _ b] "9.prems" False a by auto
    moreover have "encrypt_or_decrypt_value D self fld' False m = Inr (unsealed_image E tf fld, m)"
      using "9.IH"(1)[OF "9.prems"(5) False] a "9.prems" by auto
    ultimately show ?thesis using False c "9.prems" by simp
  qed
qed (auto split: sum.splits)

text \<open>What sealing and then unsealing gives on every input under a target-field policy.\<close>

lemma unseal_seal_image:
  assumes "opens D E k" and "fernet_keys E = k # ks"
    and "target_fields self = Some tf" and "\<not> encrypt_all self" and "\<not> already_decrypted self"
    and "json_loads D = json_loads E"
    and "EncryptedJSONField_get_prep_value E self v n = Inr (p, n')"
    and "json_roundtrips E p"
  shows "seal E self v n = Inr (PStr (json_dumps E p), n')
         \<and> unseal D self (PStr (json_dumps E p)) m = Inr (unsealed_image E tf v, m)"
proof -
  have a: "encrypt_or_decrypt_value E self v True n = Inr (p, n')"
    using assms by (simp add: EncryptedJSONField_get_prep_value_def)
  have "encrypt_or_decrypt_value D self p False m = Inr (unsealed_image E tf v, m)"
    using value_seal_unseal(1) [OF a _ assms(1,2,3)] by simp
  then show ?thesis
    using assms
    by (simp add: seal_def unseal_def stored_def EncryptedJSONField_from_db_value_def
        EncryptedJSONField_to_python_def json_roundtrips_def)
qed

text \<open>
  Claim C6. With the target field \<open>secret\<close>, the mapping
  \<open>{"secret": "x", "public": "y"}\<close> is prepared as a mapping whose \<open>public\<close> is the
  plaintext \<open>"y"\<close> and whose \<open>secret\<close> is the token of \<open>"x"\<close>, which is not \<open>"x"\<close> and
  decrypts to it; and unsealing the stored text of that mapping gives the input back.
\<close>

theorem target_field_isolation:
  assumes "fernet_correct E" and "fernet_keys E = k # ks"
    and "fernet_encrypt E k n ''x'' \<noteq> ''x''"
    and "json_roundtrips E
           (PDict [(''secret'', PStr (fernet_encrypt E k n ''x'')), (''public'', PStr ''y'')])"
    and "target_fields self = Some [''secret'']"
    and "\<not> encrypt_all self" and "\<not> already_decrypted self"
  shows "EncryptedJSONField_get_prep_value E self
             (PDict [(''secret'', PStr ''x''), (''public'', PStr ''y'')]) n
           = Inr (PDict [(''secret'', PStr (fernet_encrypt E k n ''x'')),
                         (''public'', PStr ''y'')], Suc n)
         \<and> PStr (fernet_encrypt E k n ''x'') \<noteq> PStr ''x''
         \<and> decrypt E (PStr (fernet_encrypt E k n ''x'')) = Inr ''x''
         \<and> seal E self (PDict [(''secret'', PStr ''x''), (''public'', PStr ''y'')]) n
           = Inr (PStr (json_dumps E
                    (PDict [(''secret'', PStr (fernet_encrypt E k n ''x'')),
                            (''public'', PStr ''y'')])), Suc n)
         \<and> unseal E self
             (PStr (json_dumps E
                (PDict [(''secret'', PStr (fernet_encrypt E k n ''x'')),
                        (''public'', PStr ''y'')]))) m
           = Inr (PDict [(''secret'', PStr ''x''), (''public'', PStr ''y'')], m)"
proof -
  let ?v = "PDict [(''secret'', PStr ''x''), (''public'', PStr ''y'')]"
  let ?p = "PDict [(''secret'', PStr (fernet_encrypt E k n ''x'')), (''public'', PStr ''y'')]"
  have gp: "EncryptedJSONField_get_prep_value E self ?v n = Inr (?p, Suc n)"
    using assms
    by (simp add: EncryptedJSONField_get_prep_value_def encrypt_or_decrypt_target_field_def
        encrypt_str)
  have "seal E self ?v n = Inr (PStr (json_dumps E ?p), Suc n)
         \<and> unseal E self (PStr (json_dumps E ?p)) m = Inr (unsealed_image E [''secret''] ?v, m)"
    using unseal_seal_image [OF opens_head [OF assms(1,2)] assms(2,5,6,7) refl gp assms(4)] .
  then show ?thesis
    using gp assms(3) decrypt_head [OF assms(1,2)] by simp
qed

text \<open>The same mapping with the libraries of the examples and the ring \<open>[k]\<close>.\<close>

theorem target_field_isolation_witness:
  "EncryptedJSONField_get_prep_value (demo_env ''k'') demo_field
       (PDict [(''secret'', PStr ''x''), (''public'', PStr ''y'')]) 0
     = Inr (PDict [(''secret'', PStr (demo_encrypt (CHR ''k'') 0 ''x'')),
                   (''public'', PStr ''y'')], 1)
   \<and> unseal (demo_env ''k'') demo_field
       (PStr (demo_dumps
          (PDict [(''secret'', PStr (demo_encrypt (CHR ''k'') 0 ''x'')),
                  (''public'', PStr ''y'')]))) 1
     = Inr (PDict [(''secret'', PStr ''x''), (''public'', PStr ''y'')], 1)"
proof -
  let ?E = "demo_env ''k''"
  have a: "fernet_correct ?E" "fernet_keys ?E = CHR ''k'' # []"
    by (simp_all add: fernet_correct_def demo_env_def demo_encrypt_def)
  have b: "fernet_encrypt ?E (CHR ''k'') 0 ''x'' \<noteq> ''x''"
    by (simp add: demo_env_def demo_encrypt_def)
  have c: "json_roundtrips ?E
        (PDict [(''secret'', PStr (fernet_encrypt ?E (CHR ''k'') 0 ''x'')), (''public'', PStr ''y'')])"
    by (simp add: json_roundtrips_def demo_env_def demo_loads_def demo_encrypt_def)
  have d: "target_fields demo_field = Some [''secret'']" "\<not> encrypt_all demo_field"
    "\<not> already_decrypted demo_field"
    by (simp_all add: demo_field_def)
  have e: "fernet_encrypt ?E = demo_encrypt" "json_dumps ?E = demo_dumps"
    by (simp_all add: demo_env_def)
  show ?thesis
    using target_field_isolation [OF a b c d, of 1] unfolding e by simp
qed

text \<open>
  Claim C1, at the input where the round trip fails. With the target field \<open>secret\<close>,
  the value \<open>{"secret": {"a": "b"}}\<close> is sealed and stored, and unsealing the stored
  text returns \<open>{"secret": s}\<close> where \<open>s\<close> is the JSON text of \<open>{"a": "b"}\<close>, a string and
  not the mapping: in the decrypting direction \<open>_encrypt_or_decrypt_target_field\<close> tests
  the type of the stored token, which is never a mapping or a list, so the plaintext is
  never parsed.
\<close>

theorem roundtrip_fails_structured_target:
  assumes "fernet_correct E" and "fernet_keys E = k # ks"
    and "json_roundtrips E
           (PDict [(''secret'',
              PStr (fernet_encrypt E k n (json_dumps E (PDict [(''a'', PStr ''b'')]))))])"
    and "target_fields self = Some [''secret'']"
    and "\<not> encrypt_all self" and "\<not> already_decrypted self"
  shows "seal E self (PDict [(''secret'', PDict [(''a'', PStr ''b'')])]) n
           = Inr (PStr (json_dumps E
                    (PDict [(''secret'',
                       PStr (fernet_encrypt E k n (json_dumps E (PDict [(''a'', PStr ''b'')]))))])),
                  Suc n)
         \<and> unseal E self
             (PStr (json_dumps E
                (PDict [(''secret'',
                   PStr (fernet_encrypt E k n (json_dumps E (PDict [(''a'', PStr ''b'')]))))]))) m
           = Inr (PDict [(''secret'', PStr (json_dumps E (PDict [(''a'', PStr ''b'')])))], m)
         \<and> PDict [(''secret'', PStr (json_dumps E (PDict [(''a'', PStr ''b'')])))]
           \<noteq> PDict [(''secret'', PDict [(''a'', PStr ''b'')])]"
proof -
  let ?v = "PDict [(''secret'', PDict [(''a'', PStr ''b'')])]"
  let ?p = "PDict [(''secret'',
              PStr (fernet_encrypt E k n (json_dumps E (PDict [(''a'', PStr ''b'')]))))]"
  have gp: "EncryptedJSONField_get_prep_value E self ?v n = Inr (?p, Suc n)"
    using assms
    by (simp add: EncryptedJSONField_get_prep_value_def encrypt_or_decrypt_target_field_def
        encrypt_or_decrypt_all_def encrypt_str)
  have "seal E self ?v n = Inr (PStr (json_dumps E ?p), Suc n)
         \<and> unseal E self (PStr (json_dumps E ?p)) m = Inr (unsealed_image E [''secret''] ?v, m)"
    using unseal_seal_image [OF opens_head [OF assms(1,2)] assms(2,4,5,6) refl gp assms(3)] .
  then show ?thesis by simp
qed

text \<open>The same input with the libraries of the examples.\<close>

theorem roundtrip_fails_structured_target_witness:
  "unseal (demo_env ''k'') demo_field
       (PStr (demo_dumps
          (PDict [(''secret'',
             PStr (demo_encrypt (CHR ''k'') 0 (demo_dumps (PDict [(''a'', PStr ''b'')]))))]))) 1
     = Inr (PDict [(''secret'', PStr ''{.a;s.b;}'')], 1)"
proof -
  let ?E = "demo_env ''k''"
  have a: "fernet_correct ?E" "fernet_keys ?E = CHR ''k'' # []"
    by (simp_all add: fernet_correct_def demo_env_def demo_encrypt_def)
  have c: "json_roundtrips ?E
        (PDict [(''secret'',
              PStr (fernet_encrypt ?E (CHR ''k'') 0 (json_dumps ?E (PDict [(''a'', PStr ''b'')]))))])"
    by (simp add: json_roundtrips_def demo_env_def demo_loads_def demo_encrypt_def)
  have d: "target_fields demo_field = Some [''secret'']" "\<not> encrypt_all demo_field"
    "\<not> already_decrypted demo_field"
    by (simp_all add: demo_field_def)
  have e: "fernet_encrypt ?E = demo_encrypt" "json_dumps ?E = demo_dumps"
    by (simp_all add: demo_env_def)
  have f: "demo_dumps (PDict [(''a'', PStr ''b'')]) = ''{.a;s.b;}''" by simp
  show ?thesis
    using roundtrip_fails_structured_target [OF a c d, of 1] unfolding e f by simp
qed

section \<open>Target keys that hold a scalar which is no string\<close>







section \<open>What a target key's value is replaced with\<close>

lemma target_field_Inr:
  assumes "encrypt_or_decrypt_target_field E f True n = Inr (w, n')" and "fernet_keys E = k # ks"
  shows "\<exists>pt. target_plaintext E f = Some pt \<and> w = PStr (fernet_encrypt E k n pt) \<and> n' = Suc n"
  using assms
  by (cases f)
    (auto simp: encrypt_or_decrypt_target_field_def encrypt_or_decrypt_all_def encrypt_def
      target_plaintext_def split: if_splits sum.splits)

lemma counter_mono:
  "encrypt_or_decrypt_value E self v enc n = Inr (w, n') \<Longrightarrow> n \<le> n'"
  "encrypt_or_decrypt_dict E self kvs enc n = Inr (kvs', n') \<Longrightarrow> n \<le> n'"
  "encrypt_or_decrypt_list E self xs enc n = Inr (xs', n') \<Longrightarrow> n \<le> n'"
proof (induction E self v enc n and E self kvs enc n and E self xs enc n
    arbitrary: w n' and kvs' n' and xs' n'
    rule: encrypt_or_decrypt_value_encrypt_or_decrypt_dict_encrypt_or_decrypt_list.induct)
  case (9 E self target_key fld rest enc n)
  from "9.prems" obtain tf where tf: "target_fields self = Some tf"
    by (auto split: option.splits)
  from "9.prems" tf obtain fld' n1 rest' where
    a: "(if target_key \<in> set tf then encrypt_or_decrypt_target_field E fld enc n
         else encrypt_or_decrypt_value E self fld enc n) = Inr (fld', n1)"
    and b: "encrypt_or_decrypt_dict E self rest enc n1 = Inr (rest', n')"
    by (auto split: sum.splits)
  have "n \<le> n1"
  proof (cases "target_key \<in> set tf")
    case True
    with a show ?thesis
      by (auto simp: encrypt_or_decrypt_target_field_def encrypt_or_decrypt_all_def
          split: if_splits sum.splits option.splits dest!: encrypt_Inr)
  next
    case False
    with a "9.IH"(1) [OF tf False] show ?thesis by simp
  qed
  moreover have "n1 \<le> n'" using "9.IH"(2) [OF tf a refl b] .
  ultimately show ?case by simp
next
  case (11 E self item rest enc n)
  then show ?case by (fastforce split: sum.splits)
qed (auto split: sum.splits)

lemma sealed_entry_widen:
  "sealed_entry E k tf lo hi kv kv' \<Longrightarrow> lo' \<le> lo \<Longrightarrow> hi \<le> hi'
     \<Longrightarrow> sealed_entry E k tf lo' hi' kv kv'"
  unfolding sealed_entry_def by (meson le_trans less_le_trans)

lemma dict_sealed_entries:
  "encrypt_or_decrypt_dict E self kvs True n = Inr (kvs', n') \<Longrightarrow>
     target_fields self = Some tf \<Longrightarrow> fernet_keys E = k # ks \<Longrightarrow>
     list_all2 (sealed_entry E k tf n n') kvs kvs'"
proof (induction kvs arbitrary: n kvs')
  case Nil
  then show ?case by simp
next
  case (Cons kv kvs)
  obtain k0 f0 where kv: "kv = (k0, f0)" by (cases kv)
  from Cons.prems kv obtain f1 n1 rest' where
    a: "(if k0 \<in> set tf then encrypt_or_decrypt_target_field E f0 True n
         else encrypt_or_decrypt_value E self f0 True n) = Inr (f1, n1)"
    and b: "encrypt_or_decrypt_dict E self kvs True n1 = Inr (rest', n')"
    and c: "kvs' = (k0, f1) # rest'"
    by (auto split: sum.splits)
  have n1: "n1 \<le> n'" using counter_mono(2) [OF b] .
  have n0: "n \<le> n1"
    using a counter_mono(1) [of E self f0 True n f1 n1] target_field_Inr [of E f0 n f1 n1 k ks]
      Cons.prems(3)
    by (auto split: if_splits)
  have "sealed_entry E k tf n n' (k0, f0) (k0, f1)"
  proof (cases "k0 \<in> set tf")
    case True
    with a target_field_Inr [of E f0 n f1 n1 k ks] Cons.prems(3) n1
    show ?thesis by (auto simp: sealed_entry_def)
  next
    case False
    then show ?thesis by (simp add: sealed_entry_def)
  qed
  moreover have "list_all2 (sealed_entry E k tf n n') kvs rest'"
    using Cons.IH [OF b Cons.prems(2,3)] n0
    by (auto elim!: list_all2_mono intro: sealed_entry_widen)
  ultimately show ?case using kv c by simp
qed

text \<open>
  Claim C2, as amended. Under a target-field policy, sealing a mapping, be it the value
  given to \<open>get_prep_value\<close> or a mapping that the walk reaches, keeps its keys in order
  and replaces the value of every key of the target set by one token made with the first
  key of the ring: the token of the JSON text of the whole value when the value is a
  mapping or a sequence, the token of the string itself when it is a string.
\<close>

theorem target_value_sealed_as_one_token:
  assumes "target_fields self = Some tf" and "fernet_keys E = k # ks"
    and "(\<not> encrypt_all self
            \<and> EncryptedJSONField_get_prep_value E self (PDict kvs) n = Inr (w, n'))
         \<or> encrypt_or_decrypt_value E self (PDict kvs) True n = Inr (w, n')"
  shows "\<exists>kvs'. w = PDict kvs' \<and> list_all2 (sealed_entry E k tf n n') kvs kvs'"
proof -
  have "encrypt_or_decrypt_value E self (PDict kvs) True n = Inr (w, n')"
    using assms(3) by (auto simp: EncryptedJSONField_get_prep_value_def)
  then show ?thesis
    using assms(1,2) dict_sealed_entries [of E self kvs n _ n' tf k ks]
    by (auto split: sum.splits)
qed

text \<open>A mapping under the target key \<open>secret\<close>, beside an entry that is left alone.\<close>

theorem target_value_sealed_as_one_token_witness:
  "list_all2 (sealed_entry (demo_env ''k'') (CHR ''k'') [''secret''] 0 1)
     [(''secret'', PDict [(''a'', PStr ''b'')]), (''public'', PStr ''y'')]
     [(''secret'', PStr (demo_encrypt (CHR ''k'') 0 (demo_dumps (PDict [(''a'', PStr ''b'')])))),
      (''public'', PStr ''y'')]"
proof -
  let ?E = "demo_env ''k''"
  let ?kvs = "[(''secret'', PDict [(''a'', PStr ''b'')]), (''public'', PStr ''y'')]"
  let ?kvs' = "[(''secret'', PStr (demo_encrypt (CHR ''k'') 0 (demo_dumps (PDict [(''a'', PStr ''b'')])))),
      (''public'', PStr ''y'')]"
  have a: "target_fields demo_field = Some [''secret'']" "\<not> encrypt_all demo_field"
    "fernet_keys ?E = CHR ''k'' # []"
    by (simp_all add: demo_field_def demo_env_def)
  have b: "EncryptedJSONField_get_prep_value ?E demo_field (PDict ?kvs) 0 = Inr (PDict ?kvs', 1)"
    by (simp add: EncryptedJSONField_get_prep_value_def demo_field_def
        encrypt_or_decrypt_target_field_def encrypt_or_decrypt_all_def encrypt_def demo_env_def)
  show ?thesis
    using target_value_sealed_as_one_token [OF a(1,3) disjI1 [OF conjI [OF a(2) b]]] by simp
qed

text \<open>
  Claim C2 as stated fails: the mapping \<open>{"a": "b"}\<close> under the target key \<open>secret\<close> is
  replaced by one string, the token of its JSON text, and not by a mapping whose leaf
  \<open>"b"\<close> is a token of its own.
\<close>

theorem leaves_not_sealed_one_by_one:
  "EncryptedJSONField_get_prep_value (demo_env ''k'') demo_field
       (PDict [(''secret'', PDict [(''a'', PStr ''b'')])]) 0
     = Inr (PDict [(''secret'',
              PStr (demo_encrypt (CHR ''k'') 0 (demo_dumps (PDict [(''a'', PStr ''b'')]))))], 1)
   \<and> \<not> leafwise_sealed (demo_env ''k'') (PDict [(''a'', PStr ''b'')])
         (PStr (demo_encrypt (CHR ''k'') 0 (demo_dumps (PDict [(''a'', PStr ''b'')]))))"
  by (simp add: EncryptedJSONField_get_prep_value_def demo_field_def
      encrypt_or_decrypt_target_field_def encrypt_or_decrypt_all_def encrypt_def demo_env_def)

section \<open>The walk leaves its input as it was\<close>

lemma frame_refl: "frame l s s"
  by (simp add: frame_def)

lemma frame_trans: "frame l s s1 \<Longrightarrow> frame l s1 s2 \<Longrightarrow> frame l s s2"
  by (auto simp: frame_def)

lemma frame_less: "frame l s s' \<Longrightarrow> l' \<le> l \<Longrightarrow> frame l' s s'"
  by (auto simp: frame_def)

lemma frame_new_cell: "new_cell c s = (b, s') \<Longrightarrow> l \<le> lim s \<Longrightarrow> frame l s s' \<and> b = lim s"
  by (auto simp: new_cell_def frame_def)

lemma frame_setitem: "l \<le> b \<Longrightarrow> frame l s (setitem b k v s)"
  by (auto simp: setitem_def frame_def)

lemma frame_calls: "frame l s (s\<lparr>calls := n\<rparr>)"
  by (simp add: frame_def)

lemma frame_alloc:
  "alloc w s = (v, s') \<Longrightarrow> frame (lim s) s s'"
  "alloc_dict kvs s = (kvs', s') \<Longrightarrow> frame (lim s) s s'"
  "alloc_list xs s = (xs', s') \<Longrightarrow> frame (lim s) s s'"
proof (induction w s and kvs s and xs s arbitrary: v s' and kvs' s' and xs' s'
    rule: alloc_alloc_dict_alloc_list.induct)
  case (6 xs s)
  then show ?case
    by (auto simp: new_cell_def frame_def split: prod.splits)
next
  case (7 kvs s)
  then show ?case
    by (auto simp: new_cell_def frame_def split: prod.splits)
next
  case (9 k f rest s)
  from "9.prems" obtain f' s1 rest' where
    a: "alloc f s = (f', s1)" and b: "alloc_dict rest s1 = (rest', s')"
    by (auto split: prod.splits)
  have f1: "frame (lim s) s s1" using "9.IH"(1) [OF a] .
  have "frame (lim s1) s1 s'" using "9.IH"(2) [OF a [symmetric] b] .
  then have "frame (lim s) s1 s'" using f1 by (auto simp: frame_def)
  with f1 show ?case by (rule frame_trans)
next
  case (11 x rest s)
  from "11.prems" obtain x' s1 rest' where
    a: "alloc x s = (x', s1)" and b: "alloc_list rest s1 = (rest', s')"
    by (auto split: prod.splits)
  have f1: "frame (lim s) s s1" using "11.IH"(1) [OF a] .
  have "frame (lim s1) s1 s'" using "11.IH"(2) [OF a [symmetric] b] .
  then have "frame (lim s) s1 s'" using f1 by (auto simp: frame_def)
  with f1 show ?case by (rule frame_trans)
qed (auto simp: frame_def)

lemma frame_all:
  "encrypt_or_decrypt_all_h E d v enc s = (r, s') \<Longrightarrow> frame (lim s) s s'"
  by (auto simp: encrypt_or_decrypt_all_h_def frame_refl frame_calls
      split: if_splits sum.splits option.splits prod.splits dest: frame_alloc(1))

lemma frame_target_field:
  "encrypt_or_decrypt_target_field_h E d v enc s = (r, s') \<Longrightarrow> frame (lim s) s s'"
  by (auto simp: encrypt_or_decrypt_target_field_h_def frame_refl frame_calls
      split: hval.splits if_splits sum.splits dest: frame_all)

lemma frame_walk:
  "encrypt_or_decrypt_value_h E self d v enc s = (r, s') \<Longrightarrow> frame (lim s) s s'"
  "encrypt_or_decrypt_dict_h E self d b kvs enc s = (u, s') \<Longrightarrow> l \<le> b \<Longrightarrow> l \<le> lim s
     \<Longrightarrow> frame l s s'"
  "encrypt_or_decrypt_list_h E self d xs enc s = (rs, s') \<Longrightarrow> frame (lim s) s s'"
proof (induction E self d v enc s and E self d b kvs enc s and E self d xs enc s
    arbitrary: r s' and u s' l and rs s'
    rule: encrypt_or_decrypt_value_h_encrypt_or_decrypt_dict_h_encrypt_or_decrypt_list_h.induct)
  case (1 E self v enc s)
  then show ?case by (simp add: frame_refl)
next
  case (2 E self d v enc s)
  show ?case
  proof (cases v)
    case (HRef a)
    show ?thesis
    proof (cases "cells s a")
      case (CDict kvs)
      obtain b s1 where nc: "new_cell (CDict kvs) s = (b, s1)" by (cases "new_cell (CDict kvs) s")
      obtain u s2 where dh: "encrypt_or_decrypt_dict_h E self d b kvs enc s1 = (u, s2)"
        by (cases "encrypt_or_decrypt_dict_h E self d b kvs enc s1")
      have s2: "s' = s2" using "2.prems" HRef CDict nc dh by (auto split: sum.splits)
      have f1: "frame (lim s) s s1" and b: "b = lim s" using frame_new_cell [OF nc order_refl] by auto
      have "lim s \<le> lim s1" using f1 by (simp add: frame_def)
      then have "frame (lim s) s1 s2"
        using "2.IH"(1) [OF HRef CDict nc [symmetric] dh, of "lim s"] b by simp
      with f1 show ?thesis unfolding s2 by (rule frame_trans)
    next
      case (CList xs)
      obtain rs s1 where lh: "encrypt_or_decrypt_list_h E self d xs enc s = (rs, s1)"
        by (cases "encrypt_or_decrypt_list_h E self d xs enc s")
      have f1: "frame (lim s) s s1" using "2.IH"(2) [OF HRef CList lh] .
      show ?thesis
      proof (cases rs)
        case (Inl e)
        then show ?thesis using "2.prems" HRef CList lh f1 by simp
      next
        case (Inr ys)
        obtain b s2 where nc: "new_cell (CList ys) s1 = (b, s2)" by (cases "new_cell (CList ys) s1")
        have "lim s \<le> lim s1" using f1 by (simp add: frame_def)
        then have "frame (lim s) s1 s2" using frame_new_cell [OF nc] by simp
        moreover have "s' = s2" using "2.prems" HRef CList lh Inr nc by simp
        ultimately show ?thesis using f1 by (auto intro: frame_trans)
      qed
    qed
  qed (use "2.prems" in \<open>auto simp: frame_refl\<close>)
next
  case (3 E self d b enc s)
  then show ?case by (simp add: frame_refl)
next
  case (4 E self d b target_key fld rest enc s)
  show ?case
  proof (cases "target_fields self")
    case None
    then show ?thesis using "4.prems" by (simp add: frame_refl)
  next
    case (Some tf)
    let ?step = "if target_key \<in> set tf
                 then encrypt_or_decrypt_target_field_h E d fld enc s
                 else encrypt_or_decrypt_value_h E self d fld enc s"
    obtain r1 s1 where st: "?step = (r1, s1)" by (cases ?step)
    have f1: "frame (lim s) s s1"
    proof (cases "target_key \<in> set tf")
      case True
      then show ?thesis using st frame_target_field by auto
    next
      case False
      then show ?thesis using st "4.IH"(1) [OF Some False] by auto
    qed
    then have f1l: "frame l s s1" using "4.prems"(3) by (rule frame_less)
    show ?thesis
    proof (cases r1)
      case (Inl e)
      then show ?thesis using "4.prems" Some st f1l by simp
    next
      case (Inr fld')
      have rest: "encrypt_or_decrypt_dict_h E self d b rest enc (setitem b target_key fld' s1)
                    = (u, s')"
        using "4.prems"(1) Some st Inr by simp
      have l1: "l \<le> lim (setitem b target_key fld' s1)"
        using f1 "4.prems"(3) by (simp add: frame_def setitem_def)
      have "frame l (setitem b target_key fld' s1) s'"
        using "4.IH"(2) [OF Some st [symmetric] Inr rest "4.prems"(2) l1] .
      moreover have "frame l s1 (setitem b target_key fld' s1)"
        using "4.prems"(2) by (rule frame_setitem)
      ultimately show ?thesis using f1l by (blast intro: frame_trans)
    qed
  qed
next
  case (5 E self d enc s)
  then show ?case by (simp add: frame_refl)
next
  case (6 E self d item rest enc s)
  obtain r1 s1 where st: "encrypt_or_decrypt_value_h E self d item enc s = (r1, s1)"
    by (cases "encrypt_or_decrypt_value_h E self d item enc s")
  have f1: "frame (lim s) s s1" using "6.IH"(1) [OF st] .
  show ?case
  proof (cases r1)
    case (Inl e)
    then show ?thesis using "6.prems" st f1 by simp
  next
    case (Inr item')
    obtain r2 s2 where st2: "encrypt_or_decrypt_list_h E self d rest enc s1 = (r2, s2)"
      by (cases "encrypt_or_decrypt_list_h E self d rest enc s1")
    have "frame (lim s1) s1 s2" using "6.IH"(2) [OF st [symmetric] Inr st2] .
    then have "frame (lim s) s1 s2" using f1 by (auto simp: frame_def)
    moreover have "s' = s2" using "6.prems" st Inr st2 by (auto split: sum.splits)
    ultimately show ?thesis using f1 by (auto intro: frame_trans)
  qed
qed

lemma reify_frame:
  "closed_heap s0 \<Longrightarrow> frame (lim s0) s0 s \<Longrightarrow> refs_below (lim s0) v
     \<Longrightarrow> reify d s m v = reify d s0 m v"
  "closed_heap s0 \<Longrightarrow> frame (lim s0) s0 s \<Longrightarrow> list_all (\<lambda>kv. refs_below (lim s0) (snd kv)) kvs
     \<Longrightarrow> reify_dict d s m kvs = reify_dict d s0 m kvs"
  "closed_heap s0 \<Longrightarrow> frame (lim s0) s0 s \<Longrightarrow> list_all (refs_below (lim s0)) xs
     \<Longrightarrow> reify_list d s m xs = reify_list d s0 m xs"
proof (induction d s m v and d s m kvs and d s m xs
    rule: reify_reify_dict_reify_list.induct)
  case (2 d s markers v)
  show ?case
  proof (cases v)
    case (HRef a)
    with "2.prems" have a: "a < lim s0" by simp
    then have eq: "cells s a = cells s0 a" using "2.prems"(2) by (simp add: frame_def)
    have below: "cell_below (lim s0) (cells s0 a)"
      using "2.prems"(1) a by (simp add: closed_heap_def)
    show ?thesis
    proof (cases "a \<in> set markers")
      case True
      then show ?thesis using HRef by simp
    next
      case False
      show ?thesis
      proof (cases "cells s0 a")
        case (CDict kvs)
        then have "reify_dict d s (a # markers) kvs = reify_dict d s0 (a # markers) kvs"
          using "2.IH"(1) [OF HRef False _ "2.prems"(1,2)] eq below by simp
        then show ?thesis using HRef False CDict eq by simp
      next
        case (CList xs)
        then have "reify_list d s (a # markers) xs = reify_list d s0 (a # markers) xs"
          using "2.IH"(2) [OF HRef False _ "2.prems"(1,2)] eq below by simp
        then show ?thesis using HRef False CList eq by simp
      qed
    qed
  qed simp_all
qed (auto split: sum.splits)

text \<open>
  Claim C9. Whatever the value, the policy and the direction, \<open>get_prep_value\<close>,
  \<open>to_python\<close> and the walk they run leave every container that existed before the call
  as it was: they write only to objects they have made themselves. So the structure that
  the caller passed denotes the same value after the call as before it, also when the
  call raises; and the key ring is the same list after the call.
\<close>

theorem walk_leaves_input_unchanged:
  assumes "run = EncryptedJSONField_get_prep_value_h E self d v s
           \<or> run = EncryptedJSONField_to_python_h E self d v s
           \<or> run = encrypt_or_decrypt_value_h E self d v enc s"
  shows "lim s \<le> lim (snd run)
         \<and> (\<forall>a<lim s. cells (snd run) a = cells s a)
         \<and> ring (snd run) = ring s
         \<and> (closed_heap s \<and> refs_below (lim s) v \<longrightarrow>
              (\<forall>k m. reify k (snd run) m v = reify k s m v))"
proof -
  have f: "frame (lim s) s (snd run)"
  proof -
    consider (a) "run = EncryptedJSONField_get_prep_value_h E self d v s"
      | (b) "run = EncryptedJSONField_to_python_h E self d v s"
      | (c) "run = encrypt_or_decrypt_value_h E self d v enc s"
      using assms by blast
    then show ?thesis
    proof cases
      case a
      then show ?thesis
        using frame_all [of E d v True s "fst run" "snd run"]
          frame_walk(1) [of E self d v True s "fst run" "snd run"]
        by (simp add: EncryptedJSONField_get_prep_value_h_def split: if_splits)
    next
      case b
      show ?thesis
      proof (cases v)
        case (HStr t)
        show ?thesis
        proof (cases "already_decrypted self \<or> encrypt_all self \<or> json_loads E t = None")
          case True
          then show ?thesis
            using b HStr frame_all [of E d v False s "fst run" "snd run"]
            by (auto simp: EncryptedJSONField_to_python_h_def frame_refl)
        next
          case False
          then obtain w where w: "json_loads E t = Some w" by auto
          obtain v' s1 where al: "alloc w s = (v', s1)" by (cases "alloc w s")
          have r: "run = encrypt_or_decrypt_value_h E self d v' False s1"
            using b HStr False w al by (simp add: EncryptedJSONField_to_python_h_def)
          have f1: "frame (lim s) s s1" using frame_alloc(1) [OF al] .
          have "frame (lim s1) s1 (snd run)"
            using frame_walk(1) [of E self d v' False s1 "fst run" "snd run"] r by simp
          then have "frame (lim s) s1 (snd run)" using f1 by (auto simp: frame_def)
          with f1 show ?thesis by (rule frame_trans)
        qed
      qed (use b in \<open>simp_all add: EncryptedJSONField_to_python_h_def frame_refl\<close>)
    next
      case c
      then show ?thesis
        using frame_walk(1) [of E self d v enc s "fst run" "snd run"] by simp
    qed
  qed
  then show ?thesis
    using reify_frame(1) [of s "snd run" v] by (auto simp: frame_def)
qed

text \<open>
  Sealing the dictionary at address 0: the result is a new dictionary at address 2 with
  the token under \<open>secret\<close> and a new list under \<open>items\<close>; the objects at 0 and 1 and the
  key ring are as before.
\<close>

theorem walk_leaves_input_unchanged_witness:
  "fst (EncryptedJSONField_get_prep_value_h (demo_env ''k'') demo_field 3 (HRef 0) demo_state)
     = Inr (HRef 2)
   \<and> cells (snd (EncryptedJSONField_get_prep_value_h (demo_env ''k'') demo_field 3 (HRef 0)
        demo_state)) 2
     = CDict [(''secret'', HStr (demo_encrypt (CHR ''k'') 0 ''x'')), (''items'', HRef 3)]
   \<and> cells (snd (EncryptedJSONField_get_prep_value_h (demo_env ''k'') demo_field 3 (HRef 0)
        demo_state)) 0
     = CDict [(''secret'', HStr ''x''), (''items'', HRef 1)]
   \<and> cells (snd (EncryptedJSONField_get_prep_value_h (demo_env ''k'') demo_field 3 (HRef 0)
        demo_state)) 1
     = CList [HStr ''y'']
   \<and> ring (snd (EncryptedJSONField_get_prep_value_h (demo_env ''k'') demo_field 3 (HRef 0)
        demo_state)) = ''k''
   \<and> reify 3 (snd (EncryptedJSONField_get_prep_value_h (demo_env ''k'') demo_field 3 (HRef 0)
        demo_state)) [] (HRef 0)
     = Inr (PDict [(''secret'', PStr ''x''), (''items'', PList [PStr ''y''])])"
proof -
  let ?run = "EncryptedJSONField_get_prep_value_h (demo_env ''k'') demo_field 3 (HRef 0) demo_state"
  have ev: "fst ?run = Inr (HRef 2)
            \<and> cells (snd ?run) 2
                = CDict [(''secret'', HStr (demo_encrypt (CHR ''k'') 0 ''x'')), (''items'', HRef 3)]"
    by (simp add: EncryptedJSONField_get_prep_value_h_def demo_field_def demo_state_def
        new_cell_def setitem_def encrypt_or_decrypt_target_field_h_def with_ring_def
        encrypt_def demo_env_def numeral_3_eq_3)
  have cl: "closed_heap demo_state \<and> refs_below (lim demo_state) (HRef 0)"
    by (simp add: closed_heap_def demo_state_def less_Suc_eq numeral_2_eq_2)
  have r0: "reify 3 demo_state [] (HRef 0)
              = Inr (PDict [(''secret'', PStr ''x''), (''items'', PList [PStr ''y''])])"
    by (simp add: demo_state_def numeral_3_eq_3)
  note th = walk_leaves_input_unchanged [of ?run "demo_env ''k''" demo_field 3 "HRef 0" demo_state True]
  have "cells (snd ?run) 0 = cells demo_state 0" "cells (snd ?run) 1 = cells demo_state 1"
    "ring (snd ?run) = ring demo_state"
    "reify 3 (snd ?run) [] (HRef 0) = reify 3 demo_state [] (HRef 0)"
    using th cl by (simp_all add: demo_state_def)
  then show ?thesis using ev r0 by (simp add: demo_state_def)
qed

section \<open>The walk over the store computes what the walk over values computes\<close>

text \<open>
  The two models of the walk agree: when the walk over the store succeeds on a value that
  stands for \<open>p\<close>, the walk over values succeeds on \<open>p\<close> with the same number of
  encryption calls, and the result in the store, made of new containers only, stands for
  its result.
\<close>

inductive_cases denotes_dict_consE: "denotes_dict_in l h s (kv # rest) pkvs"
inductive_cases denotes_dict_nilE: "denotes_dict_in l h s [] pkvs"
inductive_cases denotes_list_consE: "denotes_list_in l h s (x # rest) pxs"
inductive_cases denotes_list_nilE: "denotes_list_in l h s [] pxs"
inductive_cases denotes_refE: "denotes_in l h s (HRef a) p"

lemma denotes_widen:
  "denotes_in l h s v p \<Longrightarrow> l' \<le> l \<Longrightarrow> h \<le> h' \<Longrightarrow> denotes_in l' h' s v p"
  "denotes_dict_in l h s kvs pkvs \<Longrightarrow> l' \<le> l \<Longrightarrow> h \<le> h' \<Longrightarrow> denotes_dict_in l' h' s kvs pkvs"
  "denotes_list_in l h s xs pxs \<Longrightarrow> l' \<le> l \<Longrightarrow> h \<le> h' \<Longrightarrow> denotes_list_in l' h' s xs pxs"
  by (induction rule: denotes_in_denotes_dict_in_denotes_list_in.inducts)
    (auto intro: denotes_in_denotes_dict_in_denotes_list_in.intros)

lemma denotes_stable:
  "denotes_in l h s v p \<Longrightarrow> (\<forall>a. l \<le> a \<and> a < h \<longrightarrow> cells s' a = cells s a)
     \<Longrightarrow> denotes_in l h s' v p"
  "denotes_dict_in l h s kvs pkvs \<Longrightarrow> (\<forall>a. l \<le> a \<and> a < h \<longrightarrow> cells s' a = cells s a)
     \<Longrightarrow> denotes_dict_in l h s' kvs pkvs"
  "denotes_list_in l h s xs pxs \<Longrightarrow> (\<forall>a. l \<le> a \<and> a < h \<longrightarrow> cells s' a = cells s a)
     \<Longrightarrow> denotes_list_in l h s' xs pxs"
  by (induction rule: denotes_in_denotes_dict_in_denotes_list_in.inducts)
    (auto intro: denotes_in_denotes_dict_in_denotes_list_in.intros)

lemma reify_denotes:
  "denotes_in l h s v p \<Longrightarrow> reify k s m v = Inr p' \<Longrightarrow> p' = p"
  "denotes_dict_in l h s kvs pkvs \<Longrightarrow> reify_dict k s m kvs = Inr pkvs' \<Longrightarrow> pkvs' = pkvs"
  "denotes_list_in l h s xs pxs \<Longrightarrow> reify_list k s m xs = Inr pxs' \<Longrightarrow> pxs' = pxs"
proof (induction arbitrary: k m p' and k m pkvs' and k m pxs'
    rule: denotes_in_denotes_dict_in_denotes_list_in.inducts)
  case (d_dict a kvs pkvs)
  then show ?case by (cases k) (auto split: if_splits sum.splits)
next
  case (d_list a xs pxs)
  then show ?case by (cases k) (auto split: if_splits sum.splits)
next
  case (dd_cons f p rest prest k0)
  then show ?case by (auto split: sum.splits)
next
  case (dl_cons x p rest prest)
  then show ?case by (auto split: sum.splits)
qed (auto elim: reify.elims)

lemma denotes_scalar:
  "denotes_in l h s v p \<Longrightarrow>
     (case v of HRef a \<Rightarrow> isinstance_dict_list p | _ \<Rightarrow> p = pyscalar v \<and> \<not> isinstance_dict_list p)"
  by (cases v) (auto elim: denotes_in.cases)

lemma denotes_dict_keys:
  "denotes_dict_in l h s kvs pkvs \<Longrightarrow> map fst pkvs = map fst kvs"
  by (induction kvs arbitrary: pkvs) (auto elim: denotes_dict_consE denotes_dict_nilE)

lemma update_after_prefix:
  "k \<notin> fst ` set pre \<Longrightarrow> AList.update k v (pre @ (k, f) # rest) = pre @ (k, v) # rest"
  by (induction pre) auto

lemma frame_dict_except:
  "encrypt_or_decrypt_dict_h E self d b kvs enc s = (u, s') \<Longrightarrow>
     lim s \<le> lim s' \<and> (\<forall>a<lim s. a \<noteq> b \<longrightarrow> cells s' a = cells s a) \<and> ring s' = ring s"
proof (induction kvs arbitrary: s)
  case Nil
  then show ?case by simp
next
  case (Cons kv rest)
  obtain k f where kv: "kv = (k, f)" by (cases kv)
  show ?case
  proof (cases "target_fields self")
    case None
    then show ?thesis using Cons.prems kv by simp
  next
    case (Some tf)
    let ?step = "if k \<in> set tf then encrypt_or_decrypt_target_field_h E d f enc s
                 else encrypt_or_decrypt_value_h E self d f enc s"
    obtain r1 s1 where st: "?step = (r1, s1)" by (cases ?step)
    have f1: "frame (lim s) s s1"
      using st frame_target_field [of E d f enc s r1 s1] frame_walk(1) [of E self d f enc s r1 s1]
      by (auto split: if_splits)
    show ?thesis
    proof (cases r1)
      case (Inl e)
      then show ?thesis using Cons.prems kv Some st f1 by (simp add: frame_def)
    next
      case (Inr f')
      have "encrypt_or_decrypt_dict_h E self d b rest enc (setitem b k f' s1) = (u, s')"
        using Cons.prems kv Some st Inr by simp
      from Cons.IH [OF this] f1 show ?thesis
        by (auto simp: frame_def setitem_def)
    qed
  qed
qed

lemma decrypt_nonstr: "\<not> isinstance_str v \<Longrightarrow> \<exists>e. decrypt E v = Inl e"
  unfolding decrypt_def
  by (cases "fernet_keys E"; cases v) auto

lemma target_field_refines:
  assumes "encrypt_or_decrypt_target_field_h E d f enc s = (Inr f', s1)"
    and "denotes_in l h s f pf"
  shows "\<exists>t. f' = HStr t
           \<and> encrypt_or_decrypt_target_field (with_ring E s) pf enc (calls s) = Inr (PStr t, calls s1)
           \<and> cells s1 = cells s \<and> lim s1 = lim s \<and> ring s1 = ring s"
proof (cases f)
  case (HRef a)
  then have dl: "isinstance_dict_list pf" using denotes_scalar [OF assms(2)] by simp
  show ?thesis
  proof (cases enc)
    case True
    from assms(1) HRef True obtain p' where r: "reify d s [] f = Inr p'"
      by (auto simp: encrypt_or_decrypt_target_field_h_def encrypt_or_decrypt_all_h_def
          split: sum.splits)
    have "p' = pf" using reify_denotes(1) [OF assms(2) r] .
    then show ?thesis
      using assms(1) HRef True r dl
      by (auto simp: encrypt_or_decrypt_target_field_h_def encrypt_or_decrypt_all_h_def
          encrypt_or_decrypt_target_field_def encrypt_or_decrypt_all_def with_ring_def
          split: sum.splits)
  next
    case False
    have "\<exists>e. decrypt (with_ring E s) (pyscalar f) = Inl e"
      using HRef by (intro decrypt_nonstr) simp
    then show ?thesis
      using assms(1) HRef False
      by (auto simp: encrypt_or_decrypt_target_field_h_def encrypt_or_decrypt_all_h_def)
  qed
next
  case HNone
  then show ?thesis using assms denotes_scalar [OF assms(2)]
    by (auto simp: encrypt_or_decrypt_target_field_h_def encrypt_or_decrypt_target_field_def
        split: if_splits sum.splits)
next
  case (HBool b)
  then show ?thesis using assms denotes_scalar [OF assms(2)]
    by (auto simp: encrypt_or_decrypt_target_field_h_def encrypt_or_decrypt_target_field_def
        split: if_splits sum.splits)
next
  case (HInt i)
  then show ?thesis using assms denotes_scalar [OF assms(2)]
    by (auto simp: encrypt_or_decrypt_target_field_h_def encrypt_or_decrypt_target_field_def
        split: if_splits sum.splits)
next
  case (HFloat w)
  then show ?thesis using assms denotes_scalar [OF assms(2)]
    by (auto simp: encrypt_or_decrypt_target_field_h_def encrypt_or_decrypt_target_field_def
        split: if_splits sum.splits)
next
  case (HStr t)
  then show ?thesis using assms denotes_scalar [OF assms(2)]
    by (auto simp: encrypt_or_decrypt_target_field_h_def encrypt_or_decrypt_target_field_def
        split: if_splits sum.splits)
qed

lemma with_ring_frame: "frame l s s' \<Longrightarrow> with_ring E s' = with_ring E s"
  by (simp add: with_ring_def frame_def)

lemma walk_refines:
  "encrypt_or_decrypt_value_h E self d v enc s = (Inr w, s') \<Longrightarrow>
     denotes_in 0 (lim s) s v p \<Longrightarrow> distinct_keys p \<Longrightarrow>
     \<exists>q. encrypt_or_decrypt_value (with_ring E s) self p enc (calls s) = Inr (q, calls s')
         \<and> denotes_in (lim s) (lim s') s' w q"
  "encrypt_or_decrypt_dict_h E self d b rest enc s = (Inr u, s') \<Longrightarrow>
     cells s b = CDict (pre @ rest) \<Longrightarrow> distinct (map fst (pre @ rest)) \<Longrightarrow> b < lim s \<Longrightarrow>
     denotes_dict_in 0 b s rest prest \<Longrightarrow> distinct_keys_dict prest \<Longrightarrow>
     \<exists>qrest rest'.
        encrypt_or_decrypt_dict (with_ring E s) self prest enc (calls s) = Inr (qrest, calls s')
        \<and> cells s' b = CDict (pre @ rest')
        \<and> denotes_dict_in (Suc b) (lim s') s' rest' qrest"
  "encrypt_or_decrypt_list_h E self d xs enc s = (Inr ys, s') \<Longrightarrow>
     denotes_list_in 0 (lim s) s xs pxs \<Longrightarrow> distinct_keys_list pxs \<Longrightarrow>
     \<exists>qs. encrypt_or_decrypt_list (with_ring E s) self pxs enc (calls s) = Inr (qs, calls s')
         \<and> denotes_list_in (lim s) (lim s') s' ys qs"
proof (induction E self d v enc s and E self d b rest enc s and E self d xs enc s
    arbitrary: w s' p and u s' pre prest and ys s' pxs
    rule: encrypt_or_decrypt_value_h_encrypt_or_decrypt_dict_h_encrypt_or_decrypt_list_h.induct)
  case (1 E self v enc s)
  then show ?case by simp
next
  case (2 E self d v enc s)
  show ?case
  proof (cases v)
    case (HRef a)
    show ?thesis
    proof (cases "cells s a")
      case (CDict kvs)
      from "2.prems"(2) HRef CDict obtain pkvs where
        p: "p = PDict pkvs" and a: "a < lim s" and dk: "denotes_dict_in 0 (lim s) s kvs pkvs"
        by (auto elim: denotes_refE)
      obtain b s1 where nc: "new_cell (CDict kvs) s = (b, s1)" by (cases "new_cell (CDict kvs) s")
      then have b: "b = lim s" and s1: "s1 = s\<lparr>cells := (cells s)(lim s := CDict kvs), lim := Suc (lim s)\<rparr>"
        by (auto simp: new_cell_def)
      from "2.prems"(1) HRef CDict nc obtain u where
        dh: "encrypt_or_decrypt_dict_h E self d b kvs enc s1 = (Inr u, s')" and w: "w = HRef b"
        by (auto split: sum.splits prod.splits)
      have c1: "cells s1 b = CDict ([] @ kvs)" using b s1 by simp
      have keys: "map fst pkvs = map fst kvs" using denotes_dict_keys [OF dk] .
      have d1: "distinct (map fst ([] @ kvs))" using "2.prems"(3) p keys by simp
      have b1: "b < lim s1" using b s1 by simp
      have dk1: "denotes_dict_in 0 b s1 kvs pkvs"
        using denotes_stable(2) [OF dk, of s1] b s1 by simp
      have dd: "distinct_keys_dict pkvs" using "2.prems"(3) p by simp
      from "2.IH"(1) [OF HRef CDict nc [symmetric] dh c1 d1 b1 dk1 dd]
      obtain qrest rest' where
        pure: "encrypt_or_decrypt_dict (with_ring E s1) self pkvs enc (calls s1) = Inr (qrest, calls s')"
        and cb: "cells s' b = CDict ([] @ rest')"
        and dr: "denotes_dict_in (Suc b) (lim s') s' rest' qrest"
        by blast
      have ws: "with_ring E s1 = with_ring E s" "calls s1 = calls s"
        using s1 by (simp_all add: with_ring_def)
      have lims: "Suc b \<le> lim s'"
        using frame_dict_except [OF dh] b1 by simp
      have "denotes_in (lim s) (lim s') s' (HRef b) (PDict qrest)"
        using cb denotes_widen(2) [OF dr, of "lim s" "lim s'"] b lims
        by (intro d_dict [where kvs = rest']) auto
      then show ?thesis using pure ws p w by auto
    next
      case (CList xs)
      from "2.prems"(2) HRef CList obtain pxs where
        p: "p = PList pxs" and a: "a < lim s" and dl: "denotes_list_in 0 (lim s) s xs pxs"
        by (auto elim: denotes_refE)
      from "2.prems"(1) HRef CList obtain ys s1 where
        lh: "encrypt_or_decrypt_list_h E self d xs enc s = (Inr ys, s1)"
        and fin: "(Inr w, s') = (case new_cell (CList ys) s1 of (b, s2) \<Rightarrow> (Inr (HRef b), s2))"
        by (auto split: sum.splits prod.splits)
      then have w: "w = HRef (lim s1)"
        and s': "s' = s1\<lparr>cells := (cells s1)(lim s1 := CList ys), lim := Suc (lim s1)\<rparr>"
        by (auto simp: new_cell_def)
      from "2.IH"(2) [OF HRef CList lh dl] "2.prems"(3) p
      obtain qs where
        pure: "encrypt_or_decrypt_list (with_ring E s) self pxs enc (calls s) = Inr (qs, calls s1)"
        and dr: "denotes_list_in (lim s) (lim s1) s1 ys qs"
        by auto
      have ls: "lim s \<le> lim s1" using frame_walk(3) [OF lh] by (simp add: frame_def)
      have "denotes_list_in (lim s) (lim s1) s' ys qs"
        using denotes_stable(3) [OF dr, of s'] s' by simp
      then have "denotes_list_in (lim s) (lim s') s' ys qs"
        using denotes_widen(3) [of "lim s" "lim s1" s' ys qs "lim s" "lim s'"] s' by simp
      then have "denotes_in (lim s) (lim s') s' (HRef (lim s1)) (PList qs)"
        using s' ls by (intro d_list [where xs = ys]) auto
      then show ?thesis using pure p w s' by auto
    qed
  next
    case HNone
    then show ?thesis
      using "2.prems" denotes_scalar [OF "2.prems"(2)] by (auto intro: d_none)
  next
    case (HBool x)
    then show ?thesis
      using "2.prems" denotes_scalar [OF "2.prems"(2)] by (auto intro: d_bool)
  next
    case (HInt x)
    then show ?thesis
      using "2.prems" denotes_scalar [OF "2.prems"(2)] by (auto intro: d_int)
  next
    case (HFloat x)
    then show ?thesis
      using "2.prems" denotes_scalar [OF "2.prems"(2)] by (auto intro: d_float)
  next
    case (HStr x)
    then show ?thesis
      using "2.prems" denotes_scalar [OF "2.prems"(2)] by (auto intro: d_str)
  qed
next
  case (3 E self d b enc s)
  from "3.prems"(5) have "prest = []" by (rule denotes_dict_nilE)
  then show ?case using "3.prems" by (auto intro: dd_nil)
next
  case (4 E self d b target_key fld rest enc s)
  from "4.prems"(1) obtain tf where tf: "target_fields self = Some tf"
    by (auto split: option.splits)
  from "4.prems"(5) obtain pf prest0 where
    pr: "prest = (target_key, pf) # prest0" and df: "denotes_in 0 b s fld pf"
    and dr: "denotes_dict_in 0 b s rest prest0"
    by (auto elim: denotes_dict_consE)
  have dks: "distinct_keys pf" "distinct_keys_dict prest0" using "4.prems"(6) pr by simp_all
  let ?step = "if target_key \<in> set tf then encrypt_or_decrypt_target_field_h E d fld enc s
               else encrypt_or_decrypt_value_h E self d fld enc s"
  from "4.prems"(1) tf obtain fld' s1 where
    st: "?step = (Inr fld', s1)"
    and rest: "encrypt_or_decrypt_dict_h E self d b rest enc (setitem b target_key fld' s1) = (Inr u, s')"
    by (auto split: sum.splits prod.splits)
  have f1: "frame (lim s) s s1"
    using st frame_target_field [of E d fld enc s "Inr fld'" s1]
      frame_walk(1) [of E self d fld enc s "Inr fld'" s1]
    by (auto split: if_splits)
  have df': "denotes_in 0 (lim s) s fld pf"
    using denotes_widen(1) [OF df, of 0 "lim s"] "4.prems"(4) by simp
  have step_pure: "\<exists>qf.
      (if target_key \<in> set tf
       then encrypt_or_decrypt_target_field (with_ring E s) pf enc (calls s)
       else encrypt_or_decrypt_value (with_ring E s) self pf enc (calls s)) = Inr (qf, calls s1)
      \<and> denotes_in (lim s) (lim s1) s1 fld' qf"
  proof (cases "target_key \<in> set tf")
    case True
    with st have "encrypt_or_decrypt_target_field_h E d fld enc s = (Inr fld', s1)" by simp
    from target_field_refines [OF this df'] True show ?thesis by (auto intro: d_str)
  next
    case False
    with st have "encrypt_or_decrypt_value_h E self d fld enc s = (Inr fld', s1)" by simp
    from "4.IH"(1) [OF tf False this df' dks(1)] False show ?thesis by simp
  qed
  then obtain qf where
    pure1: "(if target_key \<in> set tf
       then encrypt_or_decrypt_target_field (with_ring E s) pf enc (calls s)
       else encrypt_or_decrypt_value (with_ring E s) self pf enc (calls s)) = Inr (qf, calls s1)"
    and dq: "denotes_in (lim s) (lim s1) s1 fld' qf"
    by blast
  let ?s2 = "setitem b target_key fld' s1"
  have cb1: "cells s1 b = CDict (pre @ (target_key, fld) # rest)"
    using f1 "4.prems"(2,4) by (simp add: frame_def)
  have notin: "target_key \<notin> fst ` set pre" using "4.prems"(3) by auto
  have cb2: "cells ?s2 b = CDict ((pre @ [(target_key, fld')]) @ rest)"
    using cb1 update_after_prefix [OF notin] by (simp add: setitem_def)
  have d2: "distinct (map fst ((pre @ [(target_key, fld')]) @ rest))" using "4.prems"(3) by simp
  have b2: "b < lim ?s2" using f1 "4.prems"(4) by (simp add: frame_def setitem_def)
  have dr2: "denotes_dict_in 0 b ?s2 rest prest0"
    using denotes_stable(2) [OF dr, of ?s2] f1 "4.prems"(4) by (simp add: frame_def setitem_def)
  from "4.IH"(2) [OF tf st [symmetric] refl rest cb2 d2 b2 dr2 dks(2)]
  obtain qrest rest' where
    pure2: "encrypt_or_decrypt_dict (with_ring E ?s2) self prest0 enc (calls ?s2) = Inr (qrest, calls s')"
    and cb': "cells s' b = CDict ((pre @ [(target_key, fld')]) @ rest')"
    and dr': "denotes_dict_in (Suc b) (lim s') s' rest' qrest"
    by blast
  have ws: "with_ring E ?s2 = with_ring E s" "calls ?s2 = calls s1"
    using f1 by (simp_all add: with_ring_def frame_def setitem_def)
  have fr2: "lim ?s2 \<le> lim s' \<and> (\<forall>a<lim ?s2. a \<noteq> b \<longrightarrow> cells s' a = cells ?s2 a)"
    using frame_dict_except [OF rest] by simp
  have "denotes_in (Suc b) (lim s1) s1 fld' qf"
    using denotes_widen(1) [OF dq, of "Suc b" "lim s1"] "4.prems"(4) by simp
  then have "denotes_in (Suc b) (lim s1) s' fld' qf"
    using denotes_stable(1) [of "Suc b" "lim s1" s1 fld' qf s'] fr2
    by (simp add: setitem_def)
  then have dq': "denotes_in (Suc b) (lim s') s' fld' qf"
    using denotes_widen(1) [of "Suc b" "lim s1" s' fld' qf "Suc b" "lim s'"] fr2
    by (simp add: setitem_def)
  have "encrypt_or_decrypt_dict (with_ring E s) self prest enc (calls s)
          = Inr ((target_key, qf) # qrest, calls s')"
    using pr tf pure1 pure2 ws by simp
  moreover have "cells s' b = CDict (pre @ (target_key, fld') # rest')" using cb' by simp
  moreover have "denotes_dict_in (Suc b) (lim s') s' ((target_key, fld') # rest')
                   ((target_key, qf) # qrest)"
    using dq' dr' by (rule dd_cons)
  ultimately show ?case by blast
next
  case (5 E self d enc s)
  from "5.prems"(2) have "pxs = []" by (rule denotes_list_nilE)
  then show ?case using "5.prems" by (auto intro: dl_nil)
next
  case (6 E self d item rest enc s)
  from "6.prems"(2) obtain pi prest where
    px: "pxs = pi # prest" and di: "denotes_in 0 (lim s) s item pi"
    and dr: "denotes_list_in 0 (lim s) s rest prest"
    by (auto elim: denotes_list_consE)
  from "6.prems"(1) obtain item' s1 rest' where
    st: "encrypt_or_decrypt_value_h E self d item enc s = (Inr item', s1)"
    and rs: "encrypt_or_decrypt_list_h E self d rest enc s1 = (Inr rest', s')"
    and ys: "ys = item' # rest'"
    by (auto split: sum.splits prod.splits)
  have f1: "frame (lim s) s s1" using frame_walk(1) [OF st] .
  have f2: "frame (lim s1) s1 s'" using frame_walk(3) [OF rs] .
  from "6.IH"(1) [OF st di] "6.prems"(3) px obtain qi where
    pure1: "encrypt_or_decrypt_value (with_ring E s) self pi enc (calls s) = Inr (qi, calls s1)"
    and dq: "denotes_in (lim s) (lim s1) s1 item' qi"
    by auto
  have "denotes_list_in 0 (lim s) s1 rest prest"
    using denotes_stable(3) [OF dr, of s1] f1 by (simp add: frame_def)
  then have dr1: "denotes_list_in 0 (lim s1) s1 rest prest"
    using denotes_widen(3) [of 0 "lim s" s1 rest prest 0 "lim s1"] f1 by (simp add: frame_def)
  from "6.IH"(2) [OF st [symmetric] refl rs dr1] "6.prems"(3) px obtain qs where
    pure2: "encrypt_or_decrypt_list (with_ring E s1) self prest enc (calls s1) = Inr (qs, calls s')"
    and dqs: "denotes_list_in (lim s1) (lim s') s' rest' qs"
    by auto
  have ws: "with_ring E s1 = with_ring E s" using with_ring_frame [OF f1] .
  have "denotes_in (lim s) (lim s1) s' item' qi"
    using denotes_stable(1) [OF dq, of s'] f2 by (simp add: frame_def)
  then have a: "denotes_in (lim s) (lim s') s' item' qi"
    using denotes_widen(1) [of "lim s" "lim s1" s' item' qi "lim s" "lim s'"] f2
    by (simp add: frame_def)
  have b: "denotes_list_in (lim s) (lim s') s' rest' qs"
    using denotes_widen(3) [OF dqs, of "lim s" "lim s'"] f1 by (simp add: frame_def)
  have "denotes_list_in (lim s) (lim s') s' (item' # rest') (qi # qs)"
    using a b by (rule dl_cons)
  then show ?case using px ys pure1 pure2 ws by simp
qed

lemma get_prep_value_refines:
  assumes "EncryptedJSONField_get_prep_value_h E self d v s = (Inr w, s')"
    and "denotes_in 0 (lim s) s v p" and "distinct_keys p"
  shows "\<exists>q. EncryptedJSONField_get_prep_value (with_ring E s) self p (calls s) = Inr (q, calls s')
           \<and> denotes_in (lim s) (lim s') s' w q"
proof (cases "encrypt_all self")
  case True
  with assms(1) obtain p' where r: "reify d s [] v = Inr p'"
    by (auto simp: EncryptedJSONField_get_prep_value_h_def encrypt_or_decrypt_all_h_def
        split: sum.splits)
  have "p' = p" using reify_denotes(1) [OF assms(2) r] .
  then show ?thesis
    using assms(1) True r
    by (auto simp: EncryptedJSONField_get_prep_value_h_def encrypt_or_decrypt_all_h_def
        EncryptedJSONField_get_prep_value_def encrypt_or_decrypt_all_def with_ring_def
        split: sum.splits intro: d_str)
next
  case False
  then show ?thesis
    using assms walk_refines(1) [of E self d v True s w s' p]
    by (simp add: EncryptedJSONField_get_prep_value_h_def EncryptedJSONField_get_prep_value_def)
qed

end
